theory Spec2Isabelle
  imports Main "HOL-Library.Monad_Syntax" "HOL-Library.Char_ord"
begin

section \<open>Numbers as text\<close>

text \<open>
  JavaScript numbers are modelled as integers (\<open>int\<close>); an \<open>undefined\<close> value is
  \<open>None\<close>.  A template literal turns an integer into its decimal digits.
\<close>

fun digitsOf :: "nat \<Rightarrow> string" where
  "digitsOf n = (if n < 10 then [''0123456789'' ! n] else digitsOf (n div 10) @ [''0123456789'' ! (n mod 10)])"

declare digitsOf.simps [simp del]

definition numberToString :: "int \<Rightarrow> string" where
  "numberToString i = (if i < 0 then ''-'' @ digitsOf (nat (- i)) else digitsOf (nat i))"

section \<open>Span\<close>

text \<open>class Span: the two private fields \<open>_startIndex\<close> and \<open>_length\<close>.\<close>

record Span =
  span_startIndex :: int
  span_length :: int

definition new_Span :: "int \<Rightarrow> int \<Rightarrow> Span" where
  "new_Span startIndex len = \<lparr> span_startIndex = startIndex, span_length = len \<rparr>"

definition Span_startIndex :: "Span \<Rightarrow> int" where
  "Span_startIndex s = span_startIndex s"

definition Span_length :: "Span \<Rightarrow> int" where
  "Span_length s = span_length s"

definition Span_afterEndIndex :: "Span \<Rightarrow> int" where
  "Span_afterEndIndex s = Span_startIndex s + Span_length s"

definition Span_endIndex :: "Span \<Rightarrow> int" where
  "Span_endIndex s = Span_afterEndIndex s - 1"

definition Span_toString :: "Span \<Rightarrow> string" where
  "Span_toString s = ''['' @ numberToString (Span_startIndex s) @ '','' @ numberToString (Span_afterEndIndex s) @ '')''"

section \<open>Values, arrays and ArrayList\<close>

text \<open>
  A value of element type \<open>T\<close> is an \<open>'a option\<close>, \<open>None\<close> being \<open>undefined\<close>.
  A JavaScript array is a list of such values; reading outside it gives
  \<open>undefined\<close>, writing at or beyond its end extends it.
\<close>

definition isDefined :: "'v option \<Rightarrow> bool" where
  "isDefined v = (v \<noteq> None)"

definition arrayIndex :: "'a option list \<Rightarrow> int \<Rightarrow> 'a option" where
  "arrayIndex xs i = (if 0 \<le> i \<and> i < int (length xs) then xs ! nat i else None)"

definition arrayAssign :: "'a option list \<Rightarrow> nat \<Rightarrow> 'a option \<Rightarrow> 'a option list" where
  "arrayAssign xs i v = (if i < length xs then xs[i := v] else xs @ replicate (i - length xs) None @ [v])"

record 'a ArrayList =
  al_data :: "'a option list"
  al_count :: nat

definition ArrayList_getCount :: "'a ArrayList \<Rightarrow> int" where
  "ArrayList_getCount al = int (al_count al)"

definition ArrayList_get :: "'a ArrayList \<Rightarrow> int option \<Rightarrow> 'a option" where
  "ArrayList_get al index = (case index of
       None \<Rightarrow> None
     | Some i \<Rightarrow> if 0 \<le> i \<and> i < int (al_count al) then arrayIndex (al_data al) i else None)"

definition ArrayList_add :: "'a ArrayList \<Rightarrow> 'a option \<Rightarrow> 'a ArrayList" where
  "ArrayList_add al v =
     (if al_count al = length (al_data al)
      then \<lparr> al_data = al_data al @ [v], al_count = al_count al + 1 \<rparr>
      else \<lparr> al_data = arrayAssign (al_data al) (al_count al) v, al_count = al_count al + 1 \<rparr>)"

text \<open>\<open>addAll\<close> over an array, and the constructor from an optional array.\<close>

definition ArrayList_addAll :: "'a ArrayList \<Rightarrow> 'a option list option \<Rightarrow> 'a ArrayList" where
  "ArrayList_addAll al values = (case values of None \<Rightarrow> al | Some vs \<Rightarrow> foldl ArrayList_add al vs)"

definition new_ArrayList :: "'a option list option \<Rightarrow> 'a ArrayList" where
  "new_ArrayList values = ArrayList_addAll \<lparr> al_data = [], al_count = 0 \<rparr> values"

text \<open>
  \<open>indexOf\<close> with a comparer that may raise (\<open>None\<close>); without a comparer the
  elements are compared with \<open>===\<close>.  The result is \<open>undefined\<close> when no element
  matches.
\<close>

fun indexOf_loop :: "'a option list \<Rightarrow> ('a option \<Rightarrow> 'a option \<Rightarrow> bool option) option \<Rightarrow> 'a option \<Rightarrow> nat \<Rightarrow> nat \<Rightarrow> int option option" where
  "indexOf_loop d comparer v i 0 = Some None"
| "indexOf_loop d comparer v i (Suc n) =
     (case (case comparer of None \<Rightarrow> Some (arrayIndex d (int i) = v) | Some c \<Rightarrow> c (arrayIndex d (int i)) v) of
        None \<Rightarrow> None
      | Some True \<Rightarrow> Some (Some (int i))
      | Some False \<Rightarrow> indexOf_loop d comparer v (Suc i) n)"

definition ArrayList_indexOf ::
  "'a ArrayList \<Rightarrow> 'a option \<Rightarrow> ('a option \<Rightarrow> 'a option \<Rightarrow> bool option) option \<Rightarrow> int option option" where
  "ArrayList_indexOf al v comparer = indexOf_loop (al_data al) comparer v 0 (al_count al)"

text \<open>\<open>removeAt\<close>: the elements after the index move one place down.\<close>

fun removeAt_shift :: "'a option list \<Rightarrow> nat \<Rightarrow> nat \<Rightarrow> 'a option list" where
  "removeAt_shift d i 0 = d"
| "removeAt_shift d i (Suc n) = removeAt_shift (arrayAssign d i (arrayIndex d (int i + 1))) (Suc i) n"

definition ArrayList_removeAt :: "'a ArrayList \<Rightarrow> int option \<Rightarrow> 'a option \<times> 'a ArrayList" where
  "ArrayList_removeAt al index = (case index of
       None \<Rightarrow> (None, al)
     | Some i \<Rightarrow>
         if 0 \<le> i \<and> i < int (al_count al) then
           (arrayIndex (al_data al) i,
            \<lparr> al_data = arrayAssign (removeAt_shift (al_data al) (nat i) (al_count al - 1 - nat i)) (al_count al - 1) None,
              al_count = al_count al - 1 \<rparr>)
         else (None, al))"

definition ArrayList_remove ::
  "'a ArrayList \<Rightarrow> 'a option \<Rightarrow> ('a option \<Rightarrow> 'a option \<Rightarrow> bool option) option \<Rightarrow> ('a option \<times> 'a ArrayList) option" where
  "ArrayList_remove al v comparer =
     (case ArrayList_indexOf al v comparer of
        None \<Rightarrow> None
      | Some removeIndex \<Rightarrow>
          if isDefined removeIndex then Some (ArrayList_removeAt al removeIndex) else Some (None, al))"

text \<open>
  The ArrayList iterators hold the list they iterate and \<open>_currentIndex\<close>, which
  is \<open>undefined\<close> until the first \<open>next()\<close>.
\<close>

datatype 'a ArrayListIterator =
    ArrayListForwardIterator "'a ArrayList" "int option"
  | ArrayListReverseIterator "'a ArrayList" "int option"

fun ArrayListIterator_atEnd :: "'a ArrayListIterator \<Rightarrow> bool" where
  "ArrayListIterator_atEnd (ArrayListForwardIterator al currentIndex) =
     (currentIndex = Some (ArrayList_getCount al))"
| "ArrayListIterator_atEnd (ArrayListReverseIterator al currentIndex) =
     (case currentIndex of None \<Rightarrow> False | Some i \<Rightarrow> i < 0)"

fun ArrayListIterator_hasStarted :: "'a ArrayListIterator \<Rightarrow> bool" where
  "ArrayListIterator_hasStarted (ArrayListForwardIterator al currentIndex) = isDefined currentIndex"
| "ArrayListIterator_hasStarted (ArrayListReverseIterator al currentIndex) = isDefined currentIndex"

definition ArrayListIterator_hasCurrent :: "'a ArrayListIterator \<Rightarrow> bool" where
  "ArrayListIterator_hasCurrent it = (ArrayListIterator_hasStarted it \<and> \<not> ArrayListIterator_atEnd it)"

fun ArrayListIterator_getCurrent :: "'a ArrayListIterator \<Rightarrow> 'a option" where
  "ArrayListIterator_getCurrent (ArrayListForwardIterator al currentIndex) = ArrayList_get al currentIndex"
| "ArrayListIterator_getCurrent (ArrayListReverseIterator al currentIndex) = ArrayList_get al currentIndex"

fun ArrayListIterator_next :: "'a ArrayListIterator \<Rightarrow> bool \<times> 'a ArrayListIterator" where
  "ArrayListIterator_next (ArrayListForwardIterator al currentIndex) =
     (let it' = (case currentIndex of
                   None \<Rightarrow> ArrayListForwardIterator al (Some 0)
                 | Some i \<Rightarrow>
                     if \<not> ArrayListIterator_atEnd (ArrayListForwardIterator al currentIndex)
                     then ArrayListForwardIterator al (Some (i + 1))
                     else ArrayListForwardIterator al currentIndex)
      in (\<not> ArrayListIterator_atEnd it', it'))"
| "ArrayListIterator_next (ArrayListReverseIterator al currentIndex) =
     (let it' = (case currentIndex of
                   None \<Rightarrow> ArrayListReverseIterator al (Some (ArrayList_getCount al - 1))
                 | Some i \<Rightarrow>
                     if \<not> ArrayListIterator_atEnd (ArrayListReverseIterator al currentIndex)
                     then ArrayListReverseIterator al (Some (i - 1))
                     else ArrayListReverseIterator al currentIndex)
      in (\<not> ArrayListIterator_atEnd it', it'))"

definition ArrayList_iterate :: "'a ArrayList \<Rightarrow> 'a ArrayListIterator" where
  "ArrayList_iterate al = ArrayListForwardIterator al None"

definition ArrayList_iterateReverse :: "'a ArrayList \<Rightarrow> 'a ArrayListIterator" where
  "ArrayList_iterateReverse al = ArrayListReverseIterator al None"

section \<open>The Iterator interface and its decorators\<close>

text \<open>
  The iterators that are not decorators (the ArrayList iterators, StringIterator,
  the Lexer) implement the interface directly: they are the leaves, given by
  their four methods.  \<open>hasStarted\<close> and \<open>hasCurrent\<close> of a leaf do not change
  it; \<open>next\<close> and \<open>getCurrent\<close> may fail to return (\<open>None\<close>).
\<close>

record ('b, 'a) LeafMethods =
  leaf_hasStarted :: "'b \<Rightarrow> bool"
  leaf_hasCurrent :: "'b \<Rightarrow> bool"
  leaf_next :: "'b \<Rightarrow> (bool \<times> 'b) option"
  leaf_getCurrent :: "'b \<Rightarrow> 'a option option"

text \<open>
  A decorator holds its inner iterator and its own private fields:
  WhereIterator the condition, SkipIterator \<open>_toSkip\<close> and \<open>_skipped\<close>,
  TakeIterator \<open>_toTake\<close> and \<open>_taken\<close>, MapIterator the function and \<open>_started\<close>,
  ConcatenateIterator its two iterators.
\<close>

datatype ('b, 'a) Iterator =
    Leaf 'b
  | WhereIterator "('b, 'a) Iterator" "('a option \<Rightarrow> bool) option"
  | SkipIterator "('b, 'a) Iterator" "int option" int
  | TakeIterator "('b, 'a) Iterator" "int option" int
  | MapIterator "('b, 'a) Iterator" "('a option \<Rightarrow> 'a option) option" bool
  | ConcatenateIterator "('b, 'a) Iterator" "('b, 'a) Iterator"

datatype methodName = HasCurrent | Next | GetCurrent | SkipValues

datatype 'a result = Bool bool | Value "'a option" | Void

definition isTrue :: "'a result \<Rightarrow> bool" where
  "isTrue r = (r = Bool True)"

definition valueOf :: "'a result \<Rightarrow> 'a option" where
  "valueOf r = (case r of Value v \<Rightarrow> v | _ \<Rightarrow> None)"

primrec Iterator_hasStarted :: "('b, 'a) LeafMethods \<Rightarrow> ('b, 'a) Iterator \<Rightarrow> bool" where
  "Iterator_hasStarted L (Leaf b) = leaf_hasStarted L b"
| "Iterator_hasStarted L (WhereIterator inner condition) = Iterator_hasStarted L inner"
| "Iterator_hasStarted L (SkipIterator inner toSkip skipped) = Iterator_hasStarted L inner"
| "Iterator_hasStarted L (TakeIterator inner toTake taken) = Iterator_hasStarted L inner"
| "Iterator_hasStarted L (MapIterator inner mapFunction started) = started"
| "Iterator_hasStarted L (ConcatenateIterator first second) = Iterator_hasStarted L first"

definition canTakeValue :: "int option \<Rightarrow> int \<Rightarrow> bool" where
  "canTakeValue toTake taken = (case toTake of None \<Rightarrow> False | Some n \<Rightarrow> taken \<le> n)"

text \<open>
  The methods that change the iterator.  Each call returns its result and the
  iterator after the call; \<open>None\<close> is a call that does not return.  The methods
  of one class are written over \<open>self\<close>, the dispatch of a method call on any
  iterator, which \<open>call\<close> below closes.  \<open>SkipValues\<close> is the private method of
  SkipIterator.
\<close>

type_synonym ('b, 'a) dispatch =
  "methodName \<Rightarrow> ('b, 'a) Iterator \<Rightarrow> ('a result \<times> ('b, 'a) Iterator) option"

definition Leaf_methods ::
  "('b, 'a) LeafMethods \<Rightarrow> methodName \<Rightarrow> 'b \<Rightarrow> ('a result \<times> ('b, 'a) Iterator) option" where
  "Leaf_methods L m b =
     (case m of
        HasCurrent \<Rightarrow> Some (Bool (leaf_hasCurrent L b), Leaf b)
      | Next \<Rightarrow> (case leaf_next L b of None \<Rightarrow> None | Some (r, b') \<Rightarrow> Some (Bool r, Leaf b'))
      | GetCurrent \<Rightarrow> (case leaf_getCurrent L b of None \<Rightarrow> None | Some v \<Rightarrow> Some (Value v, Leaf b))
      | SkipValues \<Rightarrow> None)"

definition WhereIterator_methods ::
  "('b, 'a) dispatch \<Rightarrow> methodName \<Rightarrow> ('b, 'a) Iterator \<Rightarrow> ('a option \<Rightarrow> bool) option
    \<Rightarrow> ('a result \<times> ('b, 'a) Iterator) option" where
  "WhereIterator_methods self m inner condition =
     (case m of
        HasCurrent \<Rightarrow>
          do { (r, inner1) \<leftarrow> self HasCurrent inner;
               Some (r, WhereIterator inner1 condition) }
      | GetCurrent \<Rightarrow>
          do { (v, inner1) \<leftarrow> self GetCurrent inner;
               Some (v, WhereIterator inner1 condition) }
      | Next \<Rightarrow>
          do { (r1, inner1) \<leftarrow> self Next inner;
               (case condition of
                  None \<Rightarrow>
                    do { (r, inner2) \<leftarrow> self HasCurrent inner1;
                         Some (r, WhereIterator inner2 condition) }
                | Some c \<Rightarrow>
                    if isTrue r1 then
                      do { (v, inner2) \<leftarrow> self GetCurrent inner1;
                           if \<not> c (valueOf v) then self Next (WhereIterator inner2 condition)
                           else do { (r, inner3) \<leftarrow> self HasCurrent inner2;
                                     Some (r, WhereIterator inner3 condition) } }
                    else
                      do { (r, inner2) \<leftarrow> self HasCurrent inner1;
                           Some (r, WhereIterator inner2 condition) }) }
      | SkipValues \<Rightarrow> None)"

definition SkipIterator_methods ::
  "('b, 'a) dispatch \<Rightarrow> methodName \<Rightarrow> ('b, 'a) Iterator \<Rightarrow> int option \<Rightarrow> int
    \<Rightarrow> ('a result \<times> ('b, 'a) Iterator) option" where
  "SkipIterator_methods self m inner toSkip skipped =
     (case m of
        SkipValues \<Rightarrow>
          (case toSkip of
             None \<Rightarrow> Some (Void, SkipIterator inner toSkip skipped)
           | Some n \<Rightarrow>
               if skipped < n then
                 do { (r, inner1) \<leftarrow> self Next inner;
                      self SkipValues (SkipIterator inner1 toSkip (if \<not> isTrue r then n else skipped + 1)) }
               else Some (Void, SkipIterator inner toSkip skipped))
      | HasCurrent \<Rightarrow>
          do { (r, inner1) \<leftarrow> self HasCurrent inner;
               (u, this) \<leftarrow> (if isTrue r then self SkipValues (SkipIterator inner1 toSkip skipped)
                             else Some (Void, SkipIterator inner1 toSkip skipped));
               (case this of
                  SkipIterator inner2 toSkip2 skipped2 \<Rightarrow>
                    do { (r2, inner3) \<leftarrow> self HasCurrent inner2;
                         Some (r2, SkipIterator inner3 toSkip2 skipped2) }
                | _ \<Rightarrow> None) }
      | Next \<Rightarrow>
          do { (u, this) \<leftarrow> self SkipValues (SkipIterator inner toSkip skipped);
               (case this of
                  SkipIterator inner1 toSkip1 skipped1 \<Rightarrow>
                    do { (r, inner2) \<leftarrow> self Next inner1;
                         Some (r, SkipIterator inner2 toSkip1 skipped1) }
                | _ \<Rightarrow> None) }
      | GetCurrent \<Rightarrow>
          do { (r, inner1) \<leftarrow> self HasCurrent inner;
               (u, this) \<leftarrow> (if isTrue r then self SkipValues (SkipIterator inner1 toSkip skipped)
                             else Some (Void, SkipIterator inner1 toSkip skipped));
               (case this of
                  SkipIterator inner2 toSkip2 skipped2 \<Rightarrow>
                    do { (v, inner3) \<leftarrow> self GetCurrent inner2;
                         Some (v, SkipIterator inner3 toSkip2 skipped2) }
                | _ \<Rightarrow> None) })"

definition TakeIterator_methods ::
  "('b, 'a) dispatch \<Rightarrow> methodName \<Rightarrow> ('b, 'a) Iterator \<Rightarrow> int option \<Rightarrow> int
    \<Rightarrow> ('a result \<times> ('b, 'a) Iterator) option" where
  "TakeIterator_methods self m inner toTake taken =
     (case m of
        HasCurrent \<Rightarrow>
          do { (r, inner1) \<leftarrow> self HasCurrent inner;
               Some (Bool (isTrue r \<and> canTakeValue toTake taken), TakeIterator inner1 toTake taken) }
      | Next \<Rightarrow>
          (if canTakeValue toTake taken then
             do { (r, inner1) \<leftarrow> self Next inner;
                  (r2, inner2) \<leftarrow> self HasCurrent inner1;
                  Some (Bool (isTrue r2 \<and> canTakeValue toTake (taken + 1)),
                        TakeIterator inner2 toTake (taken + 1)) }
           else
             do { (r, inner1) \<leftarrow> self HasCurrent inner;
                  Some (Bool (isTrue r \<and> canTakeValue toTake taken), TakeIterator inner1 toTake taken) })
      | GetCurrent \<Rightarrow>
          do { (r, inner1) \<leftarrow> self HasCurrent inner;
               if isTrue r \<and> canTakeValue toTake taken then
                 do { (v, inner2) \<leftarrow> self GetCurrent inner1;
                      Some (v, TakeIterator inner2 toTake taken) }
               else Some (Value None, TakeIterator inner1 toTake taken) }
      | SkipValues \<Rightarrow> None)"

definition MapIterator_methods ::
  "('b, 'a) dispatch \<Rightarrow> methodName \<Rightarrow> ('b, 'a) Iterator \<Rightarrow> ('a option \<Rightarrow> 'a option) option \<Rightarrow> bool
    \<Rightarrow> ('a result \<times> ('b, 'a) Iterator) option" where
  "MapIterator_methods self m inner mapFunction started =
     (case m of
        HasCurrent \<Rightarrow>
          (case mapFunction of
             None \<Rightarrow> Some (Bool False, MapIterator inner mapFunction started)
           | Some f \<Rightarrow>
               do { (r, inner1) \<leftarrow> self HasCurrent inner;
                    Some (r, MapIterator inner1 mapFunction started) })
      | Next \<Rightarrow>
          (case mapFunction of
             None \<Rightarrow> Some (Bool False, MapIterator inner mapFunction True)
           | Some f \<Rightarrow>
               do { (r, inner1) \<leftarrow> self Next inner;
                    Some (r, MapIterator inner1 mapFunction True) })
      | GetCurrent \<Rightarrow>
          (case mapFunction of
             None \<Rightarrow> Some (Value None, MapIterator inner mapFunction started)
           | Some f \<Rightarrow>
               do { (r, inner1) \<leftarrow> self HasCurrent inner;
                    if isTrue r then
                      do { (v, inner2) \<leftarrow> self GetCurrent inner1;
                           Some (Value (f (valueOf v)), MapIterator inner2 mapFunction started) }
                    else Some (Value None, MapIterator inner1 mapFunction started) })
      | SkipValues \<Rightarrow> None)"

definition ConcatenateIterator_methods ::
  "('b, 'a) dispatch \<Rightarrow> methodName \<Rightarrow> ('b, 'a) Iterator \<Rightarrow> ('b, 'a) Iterator
    \<Rightarrow> ('a result \<times> ('b, 'a) Iterator) option" where
  "ConcatenateIterator_methods self m first second =
     (case m of
        HasCurrent \<Rightarrow>
          do { (r1, first1) \<leftarrow> self HasCurrent first;
               if isTrue r1 then Some (Bool True, ConcatenateIterator first1 second)
               else do { (r2, second1) \<leftarrow> self HasCurrent second;
                         Some (Bool (isTrue r2), ConcatenateIterator first1 second1) } }
      | Next \<Rightarrow>
          do { (r1, first1) \<leftarrow> self Next first;
               if isTrue r1 then Some (Bool True, ConcatenateIterator first1 second)
               else do { (r2, second1) \<leftarrow> self Next second;
                         Some (Bool (isTrue r2), ConcatenateIterator first1 second1) } }
      | GetCurrent \<Rightarrow>
          do { (r1, first1) \<leftarrow> self HasCurrent first;
               if isTrue r1 then
                 do { (v, first2) \<leftarrow> self GetCurrent first1;
                      Some (v, ConcatenateIterator first2 second) }
               else
                 do { (v, second1) \<leftarrow> self GetCurrent second;
                      Some (v, ConcatenateIterator first1 second1) } }
      | SkipValues \<Rightarrow> None)"

text \<open>The methods of each class are monotone in \<open>self\<close>, so the dispatch exists.\<close>

lemma case_Iterator_mono [partial_function_mono]:
  assumes "\<And>b. mono_option (\<lambda>f. A f b)"
    and "\<And>i c. mono_option (\<lambda>f. B f i c)"
    and "\<And>i n k. mono_option (\<lambda>f. C f i n k)"
    and "\<And>i n k. mono_option (\<lambda>f. D f i n k)"
    and "\<And>i g s. mono_option (\<lambda>f. E f i g s)"
    and "\<And>i j. mono_option (\<lambda>f. F f i j)"
  shows "mono_option (\<lambda>f. case it of Leaf b \<Rightarrow> A f b | WhereIterator i c \<Rightarrow> B f i c
           | SkipIterator i n k \<Rightarrow> C f i n k | TakeIterator i n k \<Rightarrow> D f i n k
           | MapIterator i g s \<Rightarrow> E f i g s | ConcatenateIterator i j \<Rightarrow> F f i j)"
  by (cases it) (simp_all add: assms)

lemma WhereIterator_methods_mono [partial_function_mono]:
  assumes "\<And>m it. mono_option (\<lambda>f. S f m it)"
  shows "mono_option (\<lambda>f. WhereIterator_methods (S f) m inner condition)"
  unfolding WhereIterator_methods_def case_prod_beta
  by (cases m; cases condition; simp; intro partial_function_mono assms)

lemma SkipIterator_methods_mono [partial_function_mono]:
  assumes "\<And>m it. mono_option (\<lambda>f. S f m it)"
  shows "mono_option (\<lambda>f. SkipIterator_methods (S f) m inner toSkip skipped)"
  unfolding SkipIterator_methods_def case_prod_beta
  by (cases m; cases toSkip; simp; intro partial_function_mono assms)

lemma TakeIterator_methods_mono [partial_function_mono]:
  assumes "\<And>m it. mono_option (\<lambda>f. S f m it)"
  shows "mono_option (\<lambda>f. TakeIterator_methods (S f) m inner toTake taken)"
  unfolding TakeIterator_methods_def case_prod_beta
  by (cases m; simp; intro partial_function_mono assms)

lemma MapIterator_methods_mono [partial_function_mono]:
  assumes "\<And>m it. mono_option (\<lambda>f. S f m it)"
  shows "mono_option (\<lambda>f. MapIterator_methods (S f) m inner mapFunction started)"
  unfolding MapIterator_methods_def case_prod_beta
  by (cases m; cases mapFunction; simp; intro partial_function_mono assms)

lemma ConcatenateIterator_methods_mono [partial_function_mono]:
  assumes "\<And>m it. mono_option (\<lambda>f. S f m it)"
  shows "mono_option (\<lambda>f. ConcatenateIterator_methods (S f) m first second)"
  unfolding ConcatenateIterator_methods_def case_prod_beta
  by (cases m; simp; intro partial_function_mono assms)

partial_function (option) call ::
  "('b, 'a) LeafMethods \<Rightarrow> methodName \<Rightarrow> ('b, 'a) Iterator \<Rightarrow> ('a result \<times> ('b, 'a) Iterator) option" where
  "call L m it =
    (case it of
       Leaf b \<Rightarrow> Leaf_methods L m b
     | WhereIterator inner condition \<Rightarrow> WhereIterator_methods (call L) m inner condition
     | SkipIterator inner toSkip skipped \<Rightarrow> SkipIterator_methods (call L) m inner toSkip skipped
     | TakeIterator inner toTake taken \<Rightarrow> TakeIterator_methods (call L) m inner toTake taken
     | MapIterator inner mapFunction started \<Rightarrow> MapIterator_methods (call L) m inner mapFunction started
     | ConcatenateIterator first second \<Rightarrow> ConcatenateIterator_methods (call L) m first second)"

declare call.simps [code]

definition Iterator_hasCurrent :: "('b, 'a) LeafMethods \<Rightarrow> ('b, 'a) Iterator \<Rightarrow> (bool \<times> ('b, 'a) Iterator) option" where
  "Iterator_hasCurrent L it = map_option (\<lambda>(r, it'). (isTrue r, it')) (call L HasCurrent it)"

definition Iterator_next :: "('b, 'a) LeafMethods \<Rightarrow> ('b, 'a) Iterator \<Rightarrow> (bool \<times> ('b, 'a) Iterator) option" where
  "Iterator_next L it = map_option (\<lambda>(r, it'). (isTrue r, it')) (call L Next it)"

definition Iterator_getCurrent :: "('b, 'a) LeafMethods \<Rightarrow> ('b, 'a) Iterator \<Rightarrow> ('a option \<times> ('b, 'a) Iterator) option" where
  "Iterator_getCurrent L it = map_option (\<lambda>(r, it'). (valueOf r, it')) (call L GetCurrent it)"

subsection \<open>The methods of IteratorBase and the constructors of the decorators\<close>

text \<open>
  The constructor of WhereIterator moves past the values at the current
  position that do not match; the constructor of TakeIterator counts a current
  value as taken; the constructor of MapIterator copies \<open>hasStarted()\<close>.
\<close>

partial_function (option) new_WhereIterator_loop ::
  "('b, 'a) LeafMethods \<Rightarrow> ('a option \<Rightarrow> bool) \<Rightarrow> ('b, 'a) Iterator \<Rightarrow> ('b, 'a) Iterator option" where
  "new_WhereIterator_loop L c inner =
     do { (r, inner1) \<leftarrow> call L HasCurrent inner;
          if isTrue r then
            do { (v, inner2) \<leftarrow> call L GetCurrent inner1;
                 if \<not> c (valueOf v) then
                   do { (r3, inner3) \<leftarrow> call L Next inner2;
                        new_WhereIterator_loop L c inner3 }
                 else Some inner2 }
          else Some inner1 }"

declare new_WhereIterator_loop.simps [code]

definition new_WhereIterator ::
  "('b, 'a) LeafMethods \<Rightarrow> ('b, 'a) Iterator \<Rightarrow> ('a option \<Rightarrow> bool) option \<Rightarrow> ('b, 'a) Iterator option" where
  "new_WhereIterator L innerIterator condition =
     (case condition of
        None \<Rightarrow> Some (WhereIterator innerIterator condition)
      | Some c \<Rightarrow> map_option (\<lambda>inner. WhereIterator inner condition) (new_WhereIterator_loop L c innerIterator))"

definition new_SkipIterator :: "('b, 'a) Iterator \<Rightarrow> int option \<Rightarrow> ('b, 'a) Iterator" where
  "new_SkipIterator innerIterator toSkip = SkipIterator innerIterator toSkip 0"

definition new_TakeIterator ::
  "('b, 'a) LeafMethods \<Rightarrow> ('b, 'a) Iterator \<Rightarrow> int option \<Rightarrow> ('b, 'a) Iterator option" where
  "new_TakeIterator L innerIterator toTake =
     do { (r, inner1) \<leftarrow> call L HasCurrent innerIterator;
          Some (TakeIterator inner1 toTake (if isTrue r then 1 else 0)) }"

definition new_MapIterator ::
  "('b, 'a) LeafMethods \<Rightarrow> ('b, 'a) Iterator \<Rightarrow> ('a option \<Rightarrow> 'a option) option \<Rightarrow> ('b, 'a) Iterator" where
  "new_MapIterator L innerIterator mapFunction =
     MapIterator innerIterator mapFunction (Iterator_hasStarted L innerIterator)"

definition Iterator_where ::
  "('b, 'a) LeafMethods \<Rightarrow> ('b, 'a) Iterator \<Rightarrow> ('a option \<Rightarrow> bool) option \<Rightarrow> ('b, 'a) Iterator option" where
  "Iterator_where L it condition = new_WhereIterator L it condition"

definition Iterator_skip :: "('b, 'a) Iterator \<Rightarrow> int option \<Rightarrow> ('b, 'a) Iterator" where
  "Iterator_skip it toSkip = new_SkipIterator it toSkip"

definition Iterator_take ::
  "('b, 'a) LeafMethods \<Rightarrow> ('b, 'a) Iterator \<Rightarrow> int option \<Rightarrow> ('b, 'a) Iterator option" where
  "Iterator_take L it toTake = new_TakeIterator L it toTake"

definition Iterator_map ::
  "('b, 'a) LeafMethods \<Rightarrow> ('b, 'a) Iterator \<Rightarrow> ('a option \<Rightarrow> 'a option) option \<Rightarrow> ('b, 'a) Iterator" where
  "Iterator_map L it mapFunction = new_MapIterator L it mapFunction"

text \<open>\<open>concatenate\<close> with an iterator, or with nothing (IteratorBase then returns \<open>this\<close>).\<close>

definition Iterator_concatenate :: "('b, 'a) Iterator \<Rightarrow> ('b, 'a) Iterator option \<Rightarrow> ('b, 'a) Iterator" where
  "Iterator_concatenate it toConcatenate =
     (case toConcatenate of None \<Rightarrow> it | Some second \<Rightarrow> ConcatenateIterator it second)"

definition Iterator_takeCurrent ::
  "('b, 'a) LeafMethods \<Rightarrow> ('b, 'a) Iterator \<Rightarrow> ('a option \<times> ('b, 'a) Iterator) option" where
  "Iterator_takeCurrent L it =
     do { (v, it1) \<leftarrow> call L GetCurrent it;
          (r, it2) \<leftarrow> call L Next it1;
          Some (valueOf v, it2) }"

text \<open>\<open>getCount\<close> of IteratorBase, and its override in MapIterator.\<close>

partial_function (option) getCount_loop ::
  "('b, 'a) LeafMethods \<Rightarrow> ('b, 'a) Iterator \<Rightarrow> int \<Rightarrow> (int \<times> ('b, 'a) Iterator) option" where
  "getCount_loop L it result =
     do { (r, it1) \<leftarrow> call L Next it;
          if isTrue r then getCount_loop L it1 (result + 1) else Some (result, it1) }"

declare getCount_loop.simps [code]

definition IteratorBase_getCount ::
  "('b, 'a) LeafMethods \<Rightarrow> ('b, 'a) Iterator \<Rightarrow> (int \<times> ('b, 'a) Iterator) option" where
  "IteratorBase_getCount L it =
     do { (r, it1) \<leftarrow> call L HasCurrent it;
          getCount_loop L it1 (if isTrue r then 1 else 0) }"

fun Iterator_getCount ::
  "('b, 'a) LeafMethods \<Rightarrow> ('b, 'a) Iterator \<Rightarrow> (int \<times> ('b, 'a) Iterator) option" where
  "Iterator_getCount L (MapIterator inner mapFunction started) =
     (if isDefined mapFunction then
        do { (n, inner1) \<leftarrow> Iterator_getCount L inner;
             Some (n, MapIterator inner1 mapFunction True) }
      else Some (0, MapIterator inner mapFunction True))"
| "Iterator_getCount L it = IteratorBase_getCount L it"

text \<open>
  JavascriptIterator, the adapter that a \<open>for ... of\<close> loop drives, and
  \<open>toArray\<close>, which pushes every value of the loop.
\<close>

record ('b, 'a) JavascriptIterator =
  js_iterator :: "('b, 'a) Iterator"
  js_hasInitialValue :: bool
  js_visitedInitialValue :: bool

definition new_JavascriptIterator ::
  "('b, 'a) LeafMethods \<Rightarrow> ('b, 'a) Iterator \<Rightarrow> ('b, 'a) JavascriptIterator option" where
  "new_JavascriptIterator L it =
     do { (r, it1) \<leftarrow> call L HasCurrent it;
          Some \<lparr> js_iterator = it1, js_hasInitialValue = isTrue r, js_visitedInitialValue = False \<rparr> }"

definition JavascriptIterator_next ::
  "('b, 'a) LeafMethods \<Rightarrow> ('b, 'a) JavascriptIterator \<Rightarrow> ((bool \<times> 'a option) \<times> ('b, 'a) JavascriptIterator) option" where
  "JavascriptIterator_next L js =
     do { (done, js1) \<leftarrow>
            (if js_hasInitialValue js \<and> \<not> js_visitedInitialValue js
             then Some (False, js\<lparr> js_visitedInitialValue := True \<rparr>)
             else do { (r, it1) \<leftarrow> call L Next (js_iterator js);
                       Some (\<not> isTrue r, js\<lparr> js_iterator := it1 \<rparr>) });
          (v, it2) \<leftarrow> call L GetCurrent (js_iterator js1);
          Some ((done, valueOf v), js1\<lparr> js_iterator := it2 \<rparr>) }"

partial_function (option) toArray_loop ::
  "('b, 'a) LeafMethods \<Rightarrow> ('b, 'a) JavascriptIterator \<Rightarrow> 'a option list
    \<Rightarrow> ('a option list \<times> ('b, 'a) JavascriptIterator) option" where
  "toArray_loop L js result =
     do { (step, js1) \<leftarrow> JavascriptIterator_next L js;
          if fst step then Some (result, js1) else toArray_loop L js1 (result @ [snd step]) }"

declare toArray_loop.simps [code]

definition Iterator_toArray ::
  "('b, 'a) LeafMethods \<Rightarrow> ('b, 'a) Iterator \<Rightarrow> ('a option list \<times> ('b, 'a) Iterator) option" where
  "Iterator_toArray L it =
     do { js \<leftarrow> new_JavascriptIterator L it;
          (result, js1) \<leftarrow> toArray_loop L js [];
          Some (result, js_iterator js1) }"

text \<open>
  \<open>first\<close>: without a condition the current value, after a first \<open>next()\<close> if the
  iterator has not started; with a condition \<open>where(condition).first()\<close>.
  MapIterator always goes through \<open>where\<close>.
\<close>

definition IteratorBase_first ::
  "('b, 'a) LeafMethods \<Rightarrow> ('b, 'a) Iterator \<Rightarrow> ('a option \<times> ('b, 'a) Iterator) option" where
  "IteratorBase_first L it =
     do { it1 \<leftarrow> (if \<not> Iterator_hasStarted L it then map_option snd (call L Next it) else Some it);
          (v, it2) \<leftarrow> call L GetCurrent it1;
          Some (valueOf v, it2) }"

definition Iterator_first ::
  "('b, 'a) LeafMethods \<Rightarrow> ('b, 'a) Iterator \<Rightarrow> ('a option \<Rightarrow> bool) option
    \<Rightarrow> ('a option \<times> ('b, 'a) Iterator) option" where
  "Iterator_first L it condition =
     (case it of
        MapIterator inner mapFunction started \<Rightarrow>
          do { w \<leftarrow> Iterator_where L it condition; IteratorBase_first L w }
      | _ \<Rightarrow>
          (case condition of
             None \<Rightarrow> IteratorBase_first L it
           | Some c \<Rightarrow> do { w \<leftarrow> Iterator_where L it condition; IteratorBase_first L w }))"

section \<open>The sequence an iterator stands for\<close>

text \<open>
  A view of the leaves says which leaf states are well formed, what a leaf's
  current value is (\<open>None\<close> when it has none), and which values are still to
  come.  It extends to every iterator built from decorators.
\<close>

record ('b, 'a) LeafView =
  view_ok :: "'b \<Rightarrow> bool"
  view_current :: "'b \<Rightarrow> 'a option option"
  view_upcoming :: "'b \<Rightarrow> 'a option list"

definition headOption :: "'v list \<Rightarrow> 'v option" where
  "headOption xs = (case xs of [] \<Rightarrow> None | x # _ \<Rightarrow> Some x)"

definition currentList :: "'v option \<Rightarrow> 'v list" where
  "currentList c = (case c of None \<Rightarrow> [] | Some x \<Rightarrow> [x])"

definition currentValue :: "'a option option \<Rightarrow> 'a option" where
  "currentValue c = (case c of None \<Rightarrow> None | Some v \<Rightarrow> v)"

definition leaf_contract :: "('b, 'a) LeafMethods \<Rightarrow> ('b, 'a) LeafView \<Rightarrow> bool" where
  "leaf_contract L V \<longleftrightarrow>
     (\<forall>b. view_ok V b \<longrightarrow>
        leaf_hasCurrent L b = (view_current V b \<noteq> None)
      \<and> leaf_getCurrent L b = Some (currentValue (view_current V b))
      \<and> (\<exists>b'. leaf_next L b = Some (view_upcoming V b \<noteq> [], b')
              \<and> view_ok V b'
              \<and> view_current V b' = headOption (view_upcoming V b)
              \<and> view_upcoming V b' = tl (view_upcoming V b)
              \<and> leaf_hasStarted L b'))"

definition pendingSkips :: "int option \<Rightarrow> int \<Rightarrow> nat" where
  "pendingSkips toSkip skipped = (case toSkip of None \<Rightarrow> 0 | Some n \<Rightarrow> nat (n - skipped))"

primrec upcoming :: "('b, 'a) LeafView \<Rightarrow> ('b, 'a) Iterator \<Rightarrow> 'a option list" where
  "upcoming V (Leaf b) = view_upcoming V b"
| "upcoming V (WhereIterator inner condition) =
     (case condition of None \<Rightarrow> upcoming V inner | Some c \<Rightarrow> filter c (upcoming V inner))"
| "upcoming V (SkipIterator inner toSkip skipped) = drop (pendingSkips toSkip skipped) (upcoming V inner)"
| "upcoming V (TakeIterator inner toTake taken) =
     (case toTake of None \<Rightarrow> [] | Some n \<Rightarrow> if taken \<le> n then take (nat (n - taken)) (upcoming V inner) else [])"
| "upcoming V (MapIterator inner mapFunction started) =
     (case mapFunction of None \<Rightarrow> [] | Some f \<Rightarrow> map f (upcoming V inner))"
| "upcoming V (ConcatenateIterator first second) = upcoming V first @ upcoming V second"

primrec current :: "('b, 'a) LeafView \<Rightarrow> ('b, 'a) Iterator \<Rightarrow> 'a option option" where
  "current V (Leaf b) = view_current V b"
| "current V (WhereIterator inner condition) = current V inner"
| "current V (SkipIterator inner toSkip skipped) =
     (case current V inner of
        None \<Rightarrow> None
      | Some x \<Rightarrow> headOption (drop (pendingSkips toSkip skipped) (x # upcoming V inner)))"
| "current V (TakeIterator inner toTake taken) = (if canTakeValue toTake taken then current V inner else None)"
| "current V (MapIterator inner mapFunction started) =
     (case mapFunction of None \<Rightarrow> None | Some f \<Rightarrow> map_option f (current V inner))"
| "current V (ConcatenateIterator first second) =
     (case current V first of None \<Rightarrow> current V second | Some x \<Rightarrow> Some x)"

primrec leaves_ok :: "('b, 'a) LeafView \<Rightarrow> ('b, 'a) Iterator \<Rightarrow> bool" where
  "leaves_ok V (Leaf b) = view_ok V b"
| "leaves_ok V (WhereIterator inner condition) = leaves_ok V inner"
| "leaves_ok V (SkipIterator inner toSkip skipped) = leaves_ok V inner"
| "leaves_ok V (TakeIterator inner toTake taken) = leaves_ok V inner"
| "leaves_ok V (MapIterator inner mapFunction started) = leaves_ok V inner"
| "leaves_ok V (ConcatenateIterator first second) = (leaves_ok V first \<and> leaves_ok V second)"

primrec depth :: "('b, 'a) Iterator \<Rightarrow> nat" where
  "depth (Leaf b) = 0"
| "depth (WhereIterator inner condition) = Suc (depth inner)"
| "depth (SkipIterator inner toSkip skipped) = Suc (depth inner)"
| "depth (TakeIterator inner toTake taken) = Suc (depth inner)"
| "depth (MapIterator inner mapFunction started) = Suc (depth inner)"
| "depth (ConcatenateIterator first second) = Suc (depth first + depth second)"

text \<open>
  \<open>hasStarted()\<close> of a decorator is that of its inner (first) iterator, except
  for MapIterator.  A take decorator that cannot take never calls \<open>next()\<close> on
  its inner iterator, which then never starts.
\<close>

primrec startable :: "('b, 'a) Iterator \<Rightarrow> bool" where
  "startable (Leaf b) = True"
| "startable (WhereIterator inner condition) = startable inner"
| "startable (SkipIterator inner toSkip skipped) = startable inner"
| "startable (TakeIterator inner toTake taken) = (canTakeValue toTake taken \<and> startable inner)"
| "startable (MapIterator inner mapFunction started) = True"
| "startable (ConcatenateIterator first second) = startable first"

text \<open>
  A freshly created iterator: its leaves have not started, and every decorator
  is in the state its constructor leaves it in over such an inner iterator.
\<close>

primrec fresh :: "('b, 'a) LeafMethods \<Rightarrow> ('b, 'a) LeafView \<Rightarrow> ('b, 'a) Iterator \<Rightarrow> bool" where
  "fresh L V (Leaf b) = (view_ok V b \<and> \<not> leaf_hasStarted L b \<and> view_current V b = None)"
| "fresh L V (WhereIterator inner condition) = fresh L V inner"
| "fresh L V (SkipIterator inner toSkip skipped) = (fresh L V inner \<and> skipped = 0)"
| "fresh L V (TakeIterator inner toTake taken) = (fresh L V inner \<and> taken = 0)"
| "fresh L V (MapIterator inner mapFunction started) = (fresh L V inner \<and> \<not> started)"
| "fresh L V (ConcatenateIterator first second) = (fresh L V first \<and> fresh L V second)"

definition keeps :: "('b, 'a) LeafMethods \<Rightarrow> ('b, 'a) LeafView \<Rightarrow> ('b, 'a) Iterator \<Rightarrow> ('b, 'a) Iterator \<Rightarrow> bool" where
  "keeps L V it it' \<longleftrightarrow>
     depth it' = depth it \<and> leaves_ok V it'
     \<and> current V it' = current V it \<and> upcoming V it' = upcoming V it
     \<and> (Iterator_hasStarted L it \<longrightarrow> Iterator_hasStarted L it')"

definition advances :: "('b, 'a) LeafMethods \<Rightarrow> ('b, 'a) LeafView \<Rightarrow> ('b, 'a) Iterator \<Rightarrow> ('b, 'a) Iterator \<Rightarrow> bool" where
  "advances L V it it' \<longleftrightarrow>
     depth it' = depth it \<and> leaves_ok V it'
     \<and> current V it' = headOption (upcoming V it) \<and> upcoming V it' = tl (upcoming V it)
     \<and> (Iterator_hasStarted L it \<or> startable it \<longrightarrow> Iterator_hasStarted L it')"

definition cursor :: "('b, 'a) LeafMethods \<Rightarrow> ('b, 'a) LeafView \<Rightarrow> ('b, 'a) Iterator \<Rightarrow> bool" where
  "cursor L V it \<longleftrightarrow>
     (\<exists>it'. call L HasCurrent it = Some (Bool (current V it \<noteq> None), it') \<and> keeps L V it it')
   \<and> (\<exists>it'. call L GetCurrent it = Some (Value (currentValue (current V it)), it') \<and> keeps L V it it')
   \<and> (\<exists>it'. call L Next it = Some (Bool (upcoming V it \<noteq> []), it') \<and> advances L V it it')"

section \<open>StringIterator\<close>

text \<open>
  A text is a list of characters, or absent (\<open>undefined\<close>/\<open>null\<close>).  Every
  function that can fail to return a value (a raised TypeError, a loop that does
  not end) has an \<open>option\<close> result, \<open>None\<close> standing for "no value returned".
\<close>

definition getLength :: "'c list option \<Rightarrow> int" where
  "getLength v = (case v of None \<Rightarrow> 0 | Some cs \<Rightarrow> int (length cs))"

text \<open>\<open>text[i]\<close>: raises on an absent text, is \<open>undefined\<close> outside the text.\<close>

definition stringIndex :: "'c list option \<Rightarrow> int \<Rightarrow> 'c option option" where
  "stringIndex t i = (case t of
       None \<Rightarrow> None
     | Some cs \<Rightarrow> Some (if 0 \<le> i \<and> i < int (length cs) then Some (cs ! nat i) else None))"

record 'c StringIterator =
  si_text :: "'c list option"
  si_startIndex :: int
  si_endIndex :: int
  si_currentIndex :: int
  si_started :: bool
  si_step :: int

text \<open>The constructor; an omitted argument (\<open>None\<close>) takes its default value.\<close>

definition new_StringIterator :: "'c list option \<Rightarrow> int option \<Rightarrow> int option \<Rightarrow> 'c StringIterator" where
  "new_StringIterator t startIndex endIndex =
     (let s = (case startIndex of None \<Rightarrow> 0 | Some s \<Rightarrow> s);
          e = (case endIndex of None \<Rightarrow> getLength t | Some e \<Rightarrow> e)
      in \<lparr> si_text = t, si_startIndex = s, si_endIndex = e, si_currentIndex = s,
           si_started = False, si_step = (if e \<ge> s then 1 else - 1) \<rparr>)"

definition StringIterator_hasMore :: "'c StringIterator \<Rightarrow> bool" where
  "StringIterator_hasMore it =
     (if si_step it > 0 then si_currentIndex it < si_endIndex it else si_currentIndex it > si_endIndex it)"

definition StringIterator_hasStarted :: "'c StringIterator \<Rightarrow> bool" where
  "StringIterator_hasStarted it = si_started it"

definition StringIterator_hasCurrent :: "'c StringIterator \<Rightarrow> bool" where
  "StringIterator_hasCurrent it = (StringIterator_hasStarted it \<and> StringIterator_hasMore it)"

definition StringIterator_currentIndex :: "'c StringIterator \<Rightarrow> int option" where
  "StringIterator_currentIndex it = (if StringIterator_hasCurrent it then Some (si_currentIndex it) else None)"

definition StringIterator_getCurrent :: "'c StringIterator \<Rightarrow> 'c option option" where
  "StringIterator_getCurrent it =
     (if StringIterator_hasCurrent it then stringIndex (si_text it) (si_currentIndex it) else Some None)"

definition StringIterator_next :: "'c StringIterator \<Rightarrow> bool \<times> 'c StringIterator" where
  "StringIterator_next it =
     (let it' = (if si_started it = False then it\<lparr> si_started := True \<rparr>
                 else if StringIterator_hasMore it then it\<lparr> si_currentIndex := si_currentIndex it + si_step it \<rparr>
                 else it)
      in (StringIterator_hasMore it', it'))"

text \<open>
  A value that the code treats as a string: a string, \<open>undefined\<close>, or the number
  NaN that \<open>undefined + undefined\<close> evaluates to.  \<open>jsPlus\<close> is the operator
  \<open>+\<close> on such values: string concatenation as soon as one operand is a string.
\<close>

datatype jsString = Undefined | NotANumber | String string

definition showJsString :: "jsString \<Rightarrow> string" where
  "showJsString v = (case v of Undefined \<Rightarrow> ''undefined'' | NotANumber \<Rightarrow> ''NaN'' | String s \<Rightarrow> s)"

definition jsPlus :: "jsString \<Rightarrow> jsString \<Rightarrow> jsString" where
  "jsPlus x y = (case (x, y) of
       (String a, _) \<Rightarrow> String (a @ showJsString y)
     | (_, String b) \<Rightarrow> String (showJsString x @ b)
     | _ \<Rightarrow> NotANumber)"

definition charString :: "char option \<Rightarrow> jsString" where
  "charString c = (case c of None \<Rightarrow> Undefined | Some ch \<Rightarrow> String [ch])"

text \<open>
  readWhile, on the StringIterator that the Lexer passes to it.  The first
  statement reads the current character, the loop appends while the condition
  holds.
\<close>

partial_function (option) readWhile_loop ::
  "(char option \<Rightarrow> bool) \<Rightarrow> jsString \<Rightarrow> char StringIterator \<Rightarrow> (jsString \<times> char StringIterator) option" where
  "readWhile_loop condition result it =
     (case StringIterator_next it of (b, it') \<Rightarrow>
        if b then
          (case StringIterator_getCurrent it' of
             None \<Rightarrow> None
           | Some c \<Rightarrow>
               if condition c then readWhile_loop condition (jsPlus result (charString c)) it'
               else Some (result, it'))
        else Some (result, it'))"

declare readWhile_loop.simps [code]

definition readWhile ::
  "char StringIterator \<Rightarrow> (char option \<Rightarrow> bool) \<Rightarrow> (jsString \<times> char StringIterator) option" where
  "readWhile it condition =
     (case StringIterator_getCurrent it of
        None \<Rightarrow> None
      | Some c \<Rightarrow> readWhile_loop condition (charString c) it)"

definition isWhitespace :: "char option \<Rightarrow> bool" where
  "isWhitespace v = (v = Some CHR '' '' \<or> v = Some (CHR 0x09) \<or> v = Some (CHR 0x0D))"

definition isLetter :: "char option \<Rightarrow> bool" where
  "isLetter character = (case character of
       None \<Rightarrow> False
     | Some c \<Rightarrow> (CHR ''a'' \<le> c \<and> c \<le> CHR ''z'') \<or> (CHR ''A'' \<le> c \<and> c \<le> CHR ''Z''))"

definition isDigit :: "char option \<Rightarrow> bool" where
  "isDigit character = (case character of
       None \<Rightarrow> False
     | Some c \<Rightarrow> CHR ''0'' \<le> c \<and> c \<le> CHR ''9'')"

definition readLetters :: "char StringIterator \<Rightarrow> (jsString \<times> char StringIterator) option" where
  "readLetters it = readWhile it isLetter"

definition readWhitespace :: "char StringIterator \<Rightarrow> (jsString \<times> char StringIterator) option" where
  "readWhitespace it = readWhile it isWhitespace"

definition readDigits :: "char StringIterator \<Rightarrow> (jsString \<times> char StringIterator) option" where
  "readDigits it = readWhile it isDigit"

section \<open>Lex and Lexer\<close>

datatype LexType =
    LexType_LeftCurlyBracket | LexType_RightCurlyBracket
  | LexType_LeftSquareBracket | LexType_RightSquareBracket
  | LexType_LeftAngleBracket | LexType_RightAngleBracket
  | LexType_LeftParenthesis | LexType_RightParenthesis
  | LexType_Letters | LexType_SingleQuote | LexType_DoubleQuote | LexType_Digits
  | LexType_Comma | LexType_Colon | LexType_Semicolon | LexType_ExclamationPoint
  | LexType_Backslash | LexType_ForwardSlash | LexType_QuestionMark | LexType_Dash
  | LexType_Plus | LexType_EqualsSign | LexType_Period | LexType_Underscore
  | LexType_Ampersand | LexType_VerticalBar | LexType_Space | LexType_Tab
  | LexType_CarriageReturn | LexType_NewLine | LexType_CarriageReturnNewLine
  | LexType_Asterisk | LexType_Percent | LexType_Hash | LexType_Unrecognized

record Lex =
  lex_text :: jsString
  lex_startIndex :: int
  lex_type :: LexType

definition new_Lex :: "jsString \<Rightarrow> int \<Rightarrow> LexType \<Rightarrow> Lex" where
  "new_Lex t startIndex ty = \<lparr> lex_text = t, lex_startIndex = startIndex, lex_type = ty \<rparr>"

definition Lex_toString :: "Lex \<Rightarrow> jsString" where
  "Lex_toString l = lex_text l"

definition Lex_getType :: "Lex \<Rightarrow> LexType" where
  "Lex_getType l = lex_type l"

definition Lex_isWhitespace :: "Lex \<Rightarrow> bool" where
  "Lex_isWhitespace l = (lex_type l = LexType_Space \<or> lex_type l = LexType_Tab \<or> lex_type l = LexType_CarriageReturn)"

definition Lex_isNewLine :: "Lex \<Rightarrow> bool" where
  "Lex_isNewLine l = (lex_type l = LexType_CarriageReturnNewLine \<or> lex_type l = LexType_NewLine)"

text \<open>The factory functions, one for each kind of lex.\<close>

definition LeftCurlyBracket :: "int \<Rightarrow> Lex" where
  "LeftCurlyBracket startIndex = new_Lex (String ''{'') startIndex LexType_LeftCurlyBracket"

definition RightCurlyBracket :: "int \<Rightarrow> Lex" where
  "RightCurlyBracket startIndex = new_Lex (String ''}'') startIndex LexType_RightCurlyBracket"

definition LeftSquareBracket :: "int \<Rightarrow> Lex" where
  "LeftSquareBracket startIndex = new_Lex (String ''['') startIndex LexType_LeftSquareBracket"

definition RightSquareBracket :: "int \<Rightarrow> Lex" where
  "RightSquareBracket startIndex = new_Lex (String '']'') startIndex LexType_RightSquareBracket"

definition LeftAngleBracket :: "int \<Rightarrow> Lex" where
  "LeftAngleBracket startIndex = new_Lex (String ''<'') startIndex LexType_LeftAngleBracket"

definition RightAngleBracket :: "int \<Rightarrow> Lex" where
  "RightAngleBracket startIndex = new_Lex (String ''>'') startIndex LexType_RightAngleBracket"

definition LeftParenthesis :: "int \<Rightarrow> Lex" where
  "LeftParenthesis startIndex = new_Lex (String ''('') startIndex LexType_LeftParenthesis"

definition RightParenthesis :: "int \<Rightarrow> Lex" where
  "RightParenthesis startIndex = new_Lex (String '')'') startIndex LexType_RightParenthesis"

definition SingleQuote :: "int \<Rightarrow> Lex" where
  "SingleQuote startIndex = new_Lex (String [CHR 0x27]) startIndex LexType_SingleQuote"

definition DoubleQuote :: "int \<Rightarrow> Lex" where
  "DoubleQuote startIndex = new_Lex (String [CHR 0x22]) startIndex LexType_DoubleQuote"

definition Comma :: "int \<Rightarrow> Lex" where
  "Comma startIndex = new_Lex (String '','') startIndex LexType_Comma"

definition Colon :: "int \<Rightarrow> Lex" where
  "Colon startIndex = new_Lex (String '':'') startIndex LexType_Colon"

definition Semicolon :: "int \<Rightarrow> Lex" where
  "Semicolon startIndex = new_Lex (String '';'') startIndex LexType_Semicolon"

definition ExclamationPoint :: "int \<Rightarrow> Lex" where
  "ExclamationPoint startIndex = new_Lex (String ''!'') startIndex LexType_ExclamationPoint"

definition Backslash :: "int \<Rightarrow> Lex" where
  "Backslash startIndex = new_Lex (String [CHR 0x5C]) startIndex LexType_Backslash"

definition ForwardSlash :: "int \<Rightarrow> Lex" where
  "ForwardSlash startIndex = new_Lex (String ''/'') startIndex LexType_ForwardSlash"

definition QuestionMark :: "int \<Rightarrow> Lex" where
  "QuestionMark startIndex = new_Lex (String ''?'') startIndex LexType_QuestionMark"

definition Dash :: "int \<Rightarrow> Lex" where
  "Dash startIndex = new_Lex (String ''-'') startIndex LexType_Dash"

definition Plus :: "int \<Rightarrow> Lex" where
  "Plus startIndex = new_Lex (String ''+'') startIndex LexType_Plus"

definition EqualsSign :: "int \<Rightarrow> Lex" where
  "EqualsSign startIndex = new_Lex (String ''='') startIndex LexType_EqualsSign"

definition Period :: "int \<Rightarrow> Lex" where
  "Period startIndex = new_Lex (String ''.'') startIndex LexType_Period"

definition Underscore :: "int \<Rightarrow> Lex" where
  "Underscore startIndex = new_Lex (String ''_'') startIndex LexType_Underscore"

definition Ampersand :: "int \<Rightarrow> Lex" where
  "Ampersand startIndex = new_Lex (String ''&'') startIndex LexType_Ampersand"

definition VerticalBar :: "int \<Rightarrow> Lex" where
  "VerticalBar startIndex = new_Lex (String ''|'') startIndex LexType_VerticalBar"

definition Space :: "int \<Rightarrow> Lex" where
  "Space startIndex = new_Lex (String '' '') startIndex LexType_Space"

definition Tab :: "int \<Rightarrow> Lex" where
  "Tab startIndex = new_Lex (String [CHR 0x09]) startIndex LexType_Tab"

definition CarriageReturn :: "int \<Rightarrow> Lex" where
  "CarriageReturn startIndex = new_Lex (String [CHR 0x0D]) startIndex LexType_CarriageReturn"

definition NewLine :: "int \<Rightarrow> Lex" where
  "NewLine startIndex = new_Lex (String [CHR 0x0A]) startIndex LexType_NewLine"

definition CarriageReturnNewLine :: "int \<Rightarrow> Lex" where
  "CarriageReturnNewLine startIndex = new_Lex (String [CHR 0x0D, CHR 0x0A]) startIndex LexType_NewLine"

definition Asterisk :: "int \<Rightarrow> Lex" where
  "Asterisk startIndex = new_Lex (String ''*'') startIndex LexType_Asterisk"

definition Percent :: "int \<Rightarrow> Lex" where
  "Percent startIndex = new_Lex (String ''%'') startIndex LexType_Percent"

definition Hash :: "int \<Rightarrow> Lex" where
  "Hash startIndex = new_Lex (String ''#'') startIndex LexType_Hash"

definition Letters :: "jsString \<Rightarrow> int \<Rightarrow> Lex" where
  "Letters t startIndex = new_Lex t startIndex LexType_Letters"

definition Digits :: "jsString \<Rightarrow> int \<Rightarrow> Lex" where
  "Digits t startIndex = new_Lex t startIndex LexType_Digits"

definition Unrecognized :: "jsString \<Rightarrow> int \<Rightarrow> Lex" where
  "Unrecognized character startIndex = new_Lex character startIndex LexType_Unrecognized"

record Lexer =
  lx_iterator :: "char StringIterator"
  lx_characterStartIndexOffset :: int
  lx_currentLex :: "Lex option"

definition new_Lexer :: "string option \<Rightarrow> int option \<Rightarrow> Lexer" where
  "new_Lexer t startIndex =
     \<lparr> lx_iterator = new_StringIterator t None None,
       lx_characterStartIndexOffset = (case startIndex of None \<Rightarrow> 0 | Some s \<Rightarrow> s),
       lx_currentLex = None \<rparr>"

definition Lexer_hasStarted :: "Lexer \<Rightarrow> bool" where
  "Lexer_hasStarted l = StringIterator_hasStarted (lx_iterator l)"

definition Lexer_hasCurrent :: "Lexer \<Rightarrow> bool" where
  "Lexer_hasCurrent l = isDefined (lx_currentLex l)"

definition Lexer_getCurrent :: "Lexer \<Rightarrow> Lex option" where
  "Lexer_getCurrent l = lx_currentLex l"

text \<open>
  getCurrentCharacterStartIndex adds the offset to the iterator's \<open>currentIndex\<close>,
  which is \<open>undefined\<close> when the iterator has no current character; the sum is
  then NaN, written \<open>None\<close>.
\<close>

definition Lexer_getCurrentCharacterStartIndex :: "Lexer \<Rightarrow> int option" where
  "Lexer_getCurrentCharacterStartIndex l =
     map_option (\<lambda>i. i + lx_characterStartIndexOffset l) (StringIterator_currentIndex (lx_iterator l))"

definition Lexer_hasCurrentCharacter :: "Lexer \<Rightarrow> bool" where
  "Lexer_hasCurrentCharacter l = StringIterator_hasCurrent (lx_iterator l)"

definition Lexer_getCurrentCharacter :: "Lexer \<Rightarrow> char option option" where
  "Lexer_getCurrentCharacter l = StringIterator_getCurrent (lx_iterator l)"

definition Lexer_nextCharacter :: "Lexer \<Rightarrow> bool \<times> Lexer" where
  "Lexer_nextCharacter l =
     (case StringIterator_next (lx_iterator l) of (b, it') \<Rightarrow> (b, l\<lparr> lx_iterator := it' \<rparr>))"

text \<open>
  The cases of the switch in \<open>next()\<close> that build a one-character lex and then
  advance one character, in the order of the source.
\<close>

definition singleCharacterCase :: "char \<Rightarrow> (int \<Rightarrow> Lex) option" where
  "singleCharacterCase c =
     (if c = CHR ''{'' then Some LeftCurlyBracket
      else if c = CHR ''}'' then Some RightCurlyBracket
      else if c = CHR ''['' then Some LeftSquareBracket
      else if c = CHR '']'' then Some RightSquareBracket
      else if c = CHR ''('' then Some LeftParenthesis
      else if c = CHR '')'' then Some RightParenthesis
      else if c = CHR ''<'' then Some LeftAngleBracket
      else if c = CHR ''>'' then Some RightAngleBracket
      else if c = CHR 0x22 then Some DoubleQuote
      else if c = CHR 0x27 then Some SingleQuote
      else if c = CHR ''-'' then Some Dash
      else if c = CHR ''+'' then Some Plus
      else if c = CHR '','' then Some Comma
      else if c = CHR '':'' then Some Colon
      else if c = CHR '';'' then Some Semicolon
      else if c = CHR ''!'' then Some ExclamationPoint
      else if c = CHR 0x5C then Some Backslash
      else if c = CHR ''/'' then Some ForwardSlash
      else if c = CHR ''?'' then Some QuestionMark
      else if c = CHR ''='' then Some EqualsSign
      else if c = CHR ''.'' then Some Period
      else if c = CHR ''_'' then Some Underscore
      else if c = CHR ''&'' then Some Ampersand
      else if c = CHR '' '' then Some Space
      else if c = CHR 0x09 then Some Tab
      else if c = CHR 0x0A then Some NewLine
      else if c = CHR ''*'' then Some Asterisk
      else if c = CHR ''%'' then Some Percent
      else if c = CHR ''|'' then Some VerticalBar
      else if c = CHR ''#'' then Some Hash
      else None)"

text \<open>
  \<open>Lexer.next()\<close>.  The branch on \<open>hasCurrentCharacter()\<close> and the read of the
  start index are one case distinction here: the index is NaN exactly when
  there is no current character.
\<close>

definition Lexer_next :: "Lexer \<Rightarrow> (bool \<times> Lexer) option" where
  "Lexer_next l0 =
     (let l = (if \<not> Lexer_hasStarted l0 then snd (Lexer_nextCharacter l0) else l0) in
      case Lexer_getCurrentCharacterStartIndex l of
        None \<Rightarrow>
          (let l' = l\<lparr> lx_currentLex := None \<rparr> in Some (Lexer_hasCurrent l', l'))
      | Some currentLexStartIndex \<Rightarrow>
          (case Lexer_getCurrentCharacter l of
             None \<Rightarrow> None
           | Some c \<Rightarrow>
              (case (case c of None \<Rightarrow> None | Some ch \<Rightarrow> singleCharacterCase ch) of
                 Some factory \<Rightarrow>
                   (let l' = snd (Lexer_nextCharacter (l\<lparr> lx_currentLex := Some (factory currentLexStartIndex) \<rparr>))
                    in Some (Lexer_hasCurrent l', l'))
               | None \<Rightarrow>
                   if c = Some (CHR 0x0D) then
                     (case Lexer_nextCharacter l of (b, l1) \<Rightarrow>
                        if \<not> b then
                          (let l' = l1\<lparr> lx_currentLex := Some (CarriageReturn currentLexStartIndex) \<rparr>
                           in Some (Lexer_hasCurrent l', l'))
                        else
                          (case Lexer_getCurrentCharacter l1 of
                             None \<Rightarrow> None
                           | Some c1 \<Rightarrow>
                               if c1 \<noteq> Some (CHR 0x0A) then
                                 (let l' = l1\<lparr> lx_currentLex := Some (CarriageReturn currentLexStartIndex) \<rparr>
                                  in Some (Lexer_hasCurrent l', l'))
                               else
                                 (let l' = snd (Lexer_nextCharacter
                                              (l1\<lparr> lx_currentLex := Some (CarriageReturnNewLine currentLexStartIndex) \<rparr>))
                                  in Some (Lexer_hasCurrent l', l'))))
                   else if isLetter c then
                     (case readLetters (lx_iterator l) of
                        None \<Rightarrow> None
                      | Some (t, it') \<Rightarrow>
                          (let l' = l\<lparr> lx_iterator := it', lx_currentLex := Some (Letters t currentLexStartIndex) \<rparr>
                           in Some (Lexer_hasCurrent l', l')))
                   else if isDigit c then
                     (case readDigits (lx_iterator l) of
                        None \<Rightarrow> None
                      | Some (t, it') \<Rightarrow>
                          (let l' = l\<lparr> lx_iterator := it', lx_currentLex := Some (Digits t currentLexStartIndex) \<rparr>
                           in Some (Lexer_hasCurrent l', l')))
                   else
                     (let l' = snd (Lexer_nextCharacter
                                  (l\<lparr> lx_currentLex := Some (Unrecognized (charString c) currentLexStartIndex) \<rparr>))
                      in Some (Lexer_hasCurrent l', l')))))"

text \<open>
  getCombinedText, on an array of lexes.  An absent array gives the empty string;
  \<open>toString()\<close> on an undefined element raises.
\<close>

fun getCombinedText_loop :: "jsString \<Rightarrow> Lex option list \<Rightarrow> jsString option" where
  "getCombinedText_loop result [] = Some result"
| "getCombinedText_loop result (v # values) =
     (case v of
        None \<Rightarrow> None
      | Some l \<Rightarrow> getCombinedText_loop (jsPlus result (Lex_toString l)) values)"

definition getCombinedText :: "Lex option list option \<Rightarrow> jsString option" where
  "getCombinedText values =
     (case values of
        None \<Rightarrow> Some (String [])
      | Some vs \<Rightarrow> getCombinedText_loop (String []) vs)"

section \<open>The leaves of this library\<close>

text \<open>
  The ArrayList iterators and StringIterator as leaves over one element type, and
  the Lexer as a leaf over lexes.
\<close>

datatype 'a LibraryLeaf = OfArrayList "'a ArrayListIterator" | OfString "'a StringIterator"

definition libraryLeaf :: "('a LibraryLeaf, 'a) LeafMethods" where
  "libraryLeaf =
     \<lparr> leaf_hasStarted = (\<lambda>b. case b of
           OfArrayList it \<Rightarrow> ArrayListIterator_hasStarted it
         | OfString it \<Rightarrow> StringIterator_hasStarted it),
       leaf_hasCurrent = (\<lambda>b. case b of
           OfArrayList it \<Rightarrow> ArrayListIterator_hasCurrent it
         | OfString it \<Rightarrow> StringIterator_hasCurrent it),
       leaf_next = (\<lambda>b. case b of
           OfArrayList it \<Rightarrow> (case ArrayListIterator_next it of (r, it') \<Rightarrow> Some (r, OfArrayList it'))
         | OfString it \<Rightarrow> (case StringIterator_next it of (r, it') \<Rightarrow> Some (r, OfString it'))),
       leaf_getCurrent = (\<lambda>b. case b of
           OfArrayList it \<Rightarrow> Some (ArrayListIterator_getCurrent it)
         | OfString it \<Rightarrow> StringIterator_getCurrent it) \<rparr>"

definition lexerLeaf :: "(Lexer, Lex) LeafMethods" where
  "lexerLeaf =
     \<lparr> leaf_hasStarted = Lexer_hasStarted,
       leaf_hasCurrent = Lexer_hasCurrent,
       leaf_next = Lexer_next,
       leaf_getCurrent = (\<lambda>l. Some (Lexer_getCurrent l)) \<rparr>"

section \<open>The views of the library's leaves\<close>

text \<open>The elements of an ArrayList, in order: what \<open>get(0)\<close>, \<open>get(1)\<close>, ... return.\<close>

definition ArrayList_elements :: "'a ArrayList \<Rightarrow> 'a option list" where
  "ArrayList_elements al = map (\<lambda>i. arrayIndex (al_data al) (int i)) [0..<al_count al]"

definition textAt :: "'c list option \<Rightarrow> int \<Rightarrow> 'c option" where
  "textAt t i = (case t of
       None \<Rightarrow> None
     | Some cs \<Rightarrow> if 0 \<le> i \<and> i < int (length cs) then Some (cs ! nat i) else None)"

text \<open>
  An ArrayList iterator is well formed when its index is \<open>undefined\<close> or between
  the first position and the position after the last one in its direction.  A
  StringIterator is well formed when its step is 1 or -1 and an absent text is
  never read.
\<close>

fun arrayListIterator_ok :: "'a ArrayListIterator \<Rightarrow> bool" where
  "arrayListIterator_ok (ArrayListForwardIterator al currentIndex) =
     (case currentIndex of None \<Rightarrow> True | Some i \<Rightarrow> 0 \<le> i \<and> i \<le> int (al_count al))"
| "arrayListIterator_ok (ArrayListReverseIterator al currentIndex) =
     (case currentIndex of None \<Rightarrow> True | Some i \<Rightarrow> - 1 \<le> i \<and> i < int (al_count al))"

fun arrayListIterator_current :: "'a ArrayListIterator \<Rightarrow> 'a option option" where
  "arrayListIterator_current (ArrayListForwardIterator al currentIndex) =
     (case currentIndex of
        None \<Rightarrow> None
      | Some i \<Rightarrow> if i < int (al_count al) then Some (arrayIndex (al_data al) i) else None)"
| "arrayListIterator_current (ArrayListReverseIterator al currentIndex) =
     (case currentIndex of
        None \<Rightarrow> None
      | Some i \<Rightarrow> if 0 \<le> i then Some (arrayIndex (al_data al) i) else None)"

fun arrayListIterator_upcoming :: "'a ArrayListIterator \<Rightarrow> 'a option list" where
  "arrayListIterator_upcoming (ArrayListForwardIterator al currentIndex) =
     (case currentIndex of
        None \<Rightarrow> ArrayList_elements al
      | Some i \<Rightarrow> drop (nat (i + 1)) (ArrayList_elements al))"
| "arrayListIterator_upcoming (ArrayListReverseIterator al currentIndex) =
     (case currentIndex of
        None \<Rightarrow> rev (ArrayList_elements al)
      | Some i \<Rightarrow> rev (take (nat i) (ArrayList_elements al)))"

definition stringIterator_ok :: "'c StringIterator \<Rightarrow> bool" where
  "stringIterator_ok it \<longleftrightarrow>
     (si_step it = 1 \<or> si_step it = - 1) \<and> (si_text it = None \<longrightarrow> \<not> StringIterator_hasMore it)"

definition stringIterator_current :: "'c StringIterator \<Rightarrow> 'c option option" where
  "stringIterator_current it =
     (if StringIterator_hasCurrent it then Some (textAt (si_text it) (si_currentIndex it)) else None)"

definition stringIterator_upcoming :: "'c StringIterator \<Rightarrow> 'c option list" where
  "stringIterator_upcoming it =
     (let from = (if si_started it then si_currentIndex it + si_step it else si_currentIndex it)
      in if si_step it > 0 then map (textAt (si_text it)) [from .. si_endIndex it - 1]
         else map (textAt (si_text it)) (rev [si_endIndex it + 1 .. from]))"

definition libraryView :: "('a LibraryLeaf, 'a) LeafView" where
  "libraryView =
     \<lparr> view_ok = (\<lambda>b. case b of OfArrayList it \<Rightarrow> arrayListIterator_ok it | OfString it \<Rightarrow> stringIterator_ok it),
       view_current = (\<lambda>b. case b of
           OfArrayList it \<Rightarrow> arrayListIterator_current it
         | OfString it \<Rightarrow> stringIterator_current it),
       view_upcoming = (\<lambda>b. case b of
           OfArrayList it \<Rightarrow> arrayListIterator_upcoming it
         | OfString it \<Rightarrow> stringIterator_upcoming it) \<rparr>"

section \<open>The view of the Lexer\<close>

text \<open>
  A Lexer is well formed when its character iterator runs forward over the whole
  text, as the constructor sets it up.  The lexes still to come are those that
  further calls of \<open>next()\<close> produce; one call more than there are characters
  left always reaches the end.
\<close>

definition lexer_ok :: "Lexer \<Rightarrow> bool" where
  "lexer_ok l \<longleftrightarrow>
     si_step (lx_iterator l) = 1
   \<and> si_endIndex (lx_iterator l) = getLength (si_text (lx_iterator l))
   \<and> 0 \<le> si_currentIndex (lx_iterator l)
   \<and> si_currentIndex (lx_iterator l) \<le> si_endIndex (lx_iterator l)"

fun lexerRun :: "nat \<Rightarrow> Lexer \<Rightarrow> Lex option list" where
  "lexerRun 0 l = []"
| "lexerRun (Suc n) l =
     (case Lexer_next l of
        Some (True, l') \<Rightarrow> lx_currentLex l' # lexerRun n l'
      | _ \<Rightarrow> [])"

definition lexer_remaining :: "Lexer \<Rightarrow> nat" where
  "lexer_remaining l = nat (si_endIndex (lx_iterator l) - si_currentIndex (lx_iterator l))"

definition lexerView :: "(Lexer, Lex) LeafView" where
  "lexerView =
     \<lparr> view_ok = lexer_ok,
       view_current = (\<lambda>l. map_option Some (lx_currentLex l)),
       view_upcoming = (\<lambda>l. lexerRun (Suc (lexer_remaining l)) l) \<rparr>"

text \<open>A started forward StringIterator over the text \<open>cs\<close> at index \<open>i\<close>, and a Lexer on it.\<close>

definition at :: "string \<Rightarrow> int \<Rightarrow> int \<Rightarrow> char StringIterator" where
  "at cs s i = \<lparr> si_text = Some cs, si_startIndex = s, si_endIndex = int (length cs),
      si_currentIndex = i, si_started = True, si_step = 1 \<rparr>"

definition lexerAt :: "string \<Rightarrow> int \<Rightarrow> int \<Rightarrow> int \<Rightarrow> Lex option \<Rightarrow> Lexer" where
  "lexerAt cs s i off cur =
     \<lparr> lx_iterator = at cs s i, lx_characterStartIndexOffset = off, lx_currentLex = cur \<rparr>"

section \<open>The protocol of an iterator\<close>

text \<open>
  \<open>Iterator_nexts L n it\<close> calls \<open>next()\<close> n times and collects the results.  The
  predicates below read the protocol off such a run: whether the iterator has
  started after the calls, whether the last call returned what \<open>hasCurrent()\<close>
  returns after it, and whether \<open>false\<close> from \<open>next()\<close> is final, with
  \<open>getCurrent()\<close> returning \<open>undefined\<close> after it.
\<close>

fun Iterator_nexts ::
  "('b, 'a) LeafMethods \<Rightarrow> nat \<Rightarrow> ('b, 'a) Iterator \<Rightarrow> (bool list \<times> ('b, 'a) Iterator) option" where
  "Iterator_nexts L 0 it = Some ([], it)"
| "Iterator_nexts L (Suc n) it =
     do { (r, it1) \<leftarrow> Iterator_next L it;
          (rs, it2) \<leftarrow> Iterator_nexts L n it1;
          Some (r # rs, it2) }"

definition created_unstarted :: "('b, 'a) LeafMethods \<Rightarrow> ('b, 'a) Iterator \<Rightarrow> bool" where
  "created_unstarted L it \<longleftrightarrow>
     \<not> Iterator_hasStarted L it \<and> map_option fst (Iterator_hasCurrent L it) = Some False"

definition started_after_nexts :: "('b, 'a) LeafMethods \<Rightarrow> ('b, 'a) Iterator \<Rightarrow> nat \<Rightarrow> bool" where
  "started_after_nexts L it n \<longleftrightarrow>
     (case Iterator_nexts L n it of
        None \<Rightarrow> False
      | Some (rs, it') \<Rightarrow> Iterator_hasStarted L it')"

definition next_reports_hasCurrent :: "('b, 'a) LeafMethods \<Rightarrow> ('b, 'a) Iterator \<Rightarrow> nat \<Rightarrow> bool" where
  "next_reports_hasCurrent L it n \<longleftrightarrow>
     (case Iterator_nexts L n it of
        None \<Rightarrow> False
      | Some (rs, it') \<Rightarrow> map_option fst (Iterator_hasCurrent L it') = Some (last rs))"

definition false_is_final :: "('b, 'a) LeafMethods \<Rightarrow> ('b, 'a) Iterator \<Rightarrow> nat \<Rightarrow> bool" where
  "false_is_final L it n \<longleftrightarrow>
     (case Iterator_nexts L n it of
        None \<Rightarrow> False
      | Some (rs, it') \<Rightarrow>
          list_all Not (dropWhile id rs)
        \<and> (if last rs then True else map_option fst (Iterator_getCurrent L it') = Some None))"

section \<open>Iterables\<close>

text \<open>
  The Iterable classes: ArrayList and StringIterable, and the views that the
  operators of IterableBase and MapIterable build.  A view holds its inner
  Iterable and the argument it was built with; ConcatenateIterable copies its
  second argument into an ArrayList.
\<close>

datatype 'a Iterable =
    ArrayListIterable "'a ArrayList"
  | StringIterable "'a list option"
  | WhereIterable "'a Iterable" "'a option \<Rightarrow> bool"
  | SkipIterable "'a Iterable" int
  | TakeIterable "'a Iterable" int
  | MapIterable "'a Iterable" "'a option \<Rightarrow> 'a option"
  | ConcatenateIterable "'a Iterable" "'a ArrayList"

type_synonym 'a LibraryIterator = "('a LibraryLeaf, 'a) Iterator"

primrec Iterable_iterate :: "'a Iterable \<Rightarrow> 'a LibraryIterator option" where
  "Iterable_iterate (ArrayListIterable al) = Some (Leaf (OfArrayList (ArrayList_iterate al)))"
| "Iterable_iterate (StringIterable t) =
     Some (Leaf (OfString (new_StringIterator t (Some 0) (Some (getLength t)))))"
| "Iterable_iterate (WhereIterable innerIterable condition) =
     do { it \<leftarrow> Iterable_iterate innerIterable; Iterator_where libraryLeaf it (Some condition) }"
| "Iterable_iterate (SkipIterable innerIterable toSkip) =
     do { it \<leftarrow> Iterable_iterate innerIterable; Some (Iterator_skip it (Some toSkip)) }"
| "Iterable_iterate (TakeIterable innerIterable toTake) =
     do { it \<leftarrow> Iterable_iterate innerIterable; Iterator_take libraryLeaf it (Some toTake) }"
| "Iterable_iterate (MapIterable innerIterable mapFunction) =
     do { it \<leftarrow> Iterable_iterate innerIterable; Some (Iterator_map libraryLeaf it (Some mapFunction)) }"
| "Iterable_iterate (ConcatenateIterable first second) =
     do { it \<leftarrow> Iterable_iterate first;
          Some (Iterator_concatenate it (Some (Leaf (OfArrayList (ArrayList_iterate second))))) }"

text \<open>
  \<open>getCount\<close>: IterableBase counts by iterating; ArrayList returns its count;
  SkipIterable, TakeIterable and MapIterable compute it from the count of their
  inner Iterable.
\<close>

definition IterableBase_getCount :: "'a Iterable \<Rightarrow> int option" where
  "IterableBase_getCount s =
     do { it \<leftarrow> Iterable_iterate s;
          (n, it') \<leftarrow> Iterator_getCount libraryLeaf it;
          Some n }"

primrec Iterable_getCount :: "'a Iterable \<Rightarrow> int option" where
  "Iterable_getCount (ArrayListIterable al) = Some (ArrayList_getCount al)"
| "Iterable_getCount (StringIterable t) = IterableBase_getCount (StringIterable t)"
| "Iterable_getCount (WhereIterable innerIterable condition) =
     IterableBase_getCount (WhereIterable innerIterable condition)"
| "Iterable_getCount (SkipIterable innerIterable toSkip) =
     do { result \<leftarrow> Iterable_getCount innerIterable;
          Some (if result \<le> toSkip then 0 else result - toSkip) }"
| "Iterable_getCount (TakeIterable innerIterable toTake) =
     do { result \<leftarrow> Iterable_getCount innerIterable;
          Some (if toTake < result then toTake else result) }"
| "Iterable_getCount (MapIterable innerIterable mapFunction) = Iterable_getCount innerIterable"
| "Iterable_getCount (ConcatenateIterable first second) =
     IterableBase_getCount (ConcatenateIterable first second)"

primrec Iterable_iterateReverse :: "'a Iterable \<Rightarrow> 'a LibraryIterator option" where
  "Iterable_iterateReverse (ArrayListIterable al) = Some (Leaf (OfArrayList (ArrayList_iterateReverse al)))"
| "Iterable_iterateReverse (StringIterable t) =
     Some (Leaf (OfString (new_StringIterator t (Some (getLength t - 1)) (Some (- 1)))))"
| "Iterable_iterateReverse (WhereIterable innerIterable condition) =
     do { it \<leftarrow> Iterable_iterateReverse innerIterable; Iterator_where libraryLeaf it (Some condition) }"
| "Iterable_iterateReverse (SkipIterable innerIterable toSkip) =
     do { it \<leftarrow> Iterable_iterateReverse innerIterable;
          n \<leftarrow> Iterable_getCount (SkipIterable innerIterable toSkip);
          Iterator_take libraryLeaf it (Some n) }"
| "Iterable_iterateReverse (TakeIterable innerIterable toTake) =
     do { it \<leftarrow> Iterable_iterateReverse innerIterable;
          n \<leftarrow> Iterable_getCount innerIterable;
          Some (Iterator_skip it (Some (n - toTake))) }"
| "Iterable_iterateReverse (MapIterable innerIterable mapFunction) =
     do { it \<leftarrow> Iterable_iterateReverse innerIterable; Some (Iterator_map libraryLeaf it (Some mapFunction)) }"
| "Iterable_iterateReverse (ConcatenateIterable first second) =
     do { it \<leftarrow> Iterable_iterateReverse first;
          Some (Iterator_concatenate (Leaf (OfArrayList (ArrayList_iterateReverse second))) (Some it)) }"

definition Iterable_toArray :: "'a Iterable \<Rightarrow> 'a option list option" where
  "Iterable_toArray s =
     do { it \<leftarrow> Iterable_iterate s;
          (result, it') \<leftarrow> Iterator_toArray libraryLeaf it;
          Some result }"

text \<open>
  \<open>get\<close> and \<open>getLast\<close>.  The index is a number or \<open>undefined\<close>; \<open>None\<close> also
  stands for NaN, which \<open>undefined + toSkip\<close> evaluates to and which fails every
  comparison like \<open>undefined\<close> does.  The loop of IterableBase moves an iterator
  \<open>index + 1\<close> times, or until it ends.
\<close>

partial_function (option) get_loop ::
  "('b, 'a) LeafMethods \<Rightarrow> ('b, 'a) Iterator \<Rightarrow> int \<Rightarrow> ('b, 'a) Iterator option" where
  "get_loop L iterator index =
     do { (r, iterator1) \<leftarrow> call L Next iterator;
          if isTrue r \<and> 0 < index then get_loop L iterator1 (index - 1) else Some iterator1 }"

declare get_loop.simps [code]

definition get_from :: "'a LibraryIterator option \<Rightarrow> int option \<Rightarrow> 'a option option" where
  "get_from iterate index =
     (case index of
        None \<Rightarrow> Some None
      | Some i \<Rightarrow>
          if 0 \<le> i then
            do { iterator \<leftarrow> iterate;
                 iterator1 \<leftarrow> get_loop libraryLeaf iterator i;
                 (v, iterator2) \<leftarrow> call libraryLeaf GetCurrent iterator1;
                 Some (valueOf v) }
          else Some None)"

definition IterableBase_get :: "'a Iterable \<Rightarrow> int option \<Rightarrow> 'a option option" where
  "IterableBase_get s index = get_from (Iterable_iterate s) index"

definition IterableBase_getLast :: "'a Iterable \<Rightarrow> int option \<Rightarrow> 'a option option" where
  "IterableBase_getLast s index = get_from (Iterable_iterateReverse s) index"

primrec Iterable_get :: "'a Iterable \<Rightarrow> int option \<Rightarrow> 'a option option" where
  "Iterable_get (ArrayListIterable al) = (\<lambda>index. Some (ArrayList_get al index))"
| "Iterable_get (StringIterable t) = IterableBase_get (StringIterable t)"
| "Iterable_get (WhereIterable innerIterable condition) =
     IterableBase_get (WhereIterable innerIterable condition)"
| "Iterable_get (SkipIterable innerIterable toSkip) =
     (\<lambda>index. Iterable_get innerIterable (map_option (\<lambda>i. i + toSkip) index))"
| "Iterable_get (TakeIterable innerIterable toTake) =
     (\<lambda>index. case index of
        None \<Rightarrow> Some None
      | Some i \<Rightarrow>
          if 0 \<le> i then
            do { n \<leftarrow> Iterable_getCount (TakeIterable innerIterable toTake);
                 if i < n then Iterable_get innerIterable index else Some None }
          else Some None)"
| "Iterable_get (MapIterable innerIterable mapFunction) =
     (\<lambda>index. case index of
        None \<Rightarrow> Some None
      | Some i \<Rightarrow>
          if 0 \<le> i then
            do { n \<leftarrow> Iterable_getCount (MapIterable innerIterable mapFunction);
                 if i < n then map_option mapFunction (Iterable_get innerIterable index) else Some None }
          else Some None)"
| "Iterable_get (ConcatenateIterable first second) = IterableBase_get (ConcatenateIterable first second)"

primrec Iterable_getLast :: "'a Iterable \<Rightarrow> int option \<Rightarrow> 'a option option" where
  "Iterable_getLast (ArrayListIterable al) = IterableBase_getLast (ArrayListIterable al)"
| "Iterable_getLast (StringIterable t) = IterableBase_getLast (StringIterable t)"
| "Iterable_getLast (WhereIterable innerIterable condition) =
     IterableBase_getLast (WhereIterable innerIterable condition)"
| "Iterable_getLast (SkipIterable innerIterable toSkip) =
     IterableBase_getLast (SkipIterable innerIterable toSkip)"
| "Iterable_getLast (TakeIterable innerIterable toTake) =
     IterableBase_getLast (TakeIterable innerIterable toTake)"
| "Iterable_getLast (MapIterable innerIterable mapFunction) =
     (\<lambda>index. case index of
        None \<Rightarrow> Some None
      | Some i \<Rightarrow>
          if 0 \<le> i then
            do { n \<leftarrow> Iterable_getCount (MapIterable innerIterable mapFunction);
                 if i < n then map_option mapFunction (Iterable_getLast innerIterable index) else Some None }
          else Some None)"
| "Iterable_getLast (ConcatenateIterable first second) =
     IterableBase_getLast (ConcatenateIterable first second)"

text \<open>
  The operators.  A number is truthy unless it is 0, a function or an array
  whenever it is defined; \<open>take\<close> and \<open>map\<close> answer a degenerate argument with a
  new empty ArrayList.
\<close>

definition Iterable_where :: "'a Iterable \<Rightarrow> ('a option \<Rightarrow> bool) option \<Rightarrow> 'a Iterable" where
  "Iterable_where s condition = (case condition of None \<Rightarrow> s | Some c \<Rightarrow> WhereIterable s c)"

definition Iterable_skip :: "'a Iterable \<Rightarrow> int option \<Rightarrow> 'a Iterable" where
  "Iterable_skip s toSkip =
     (case toSkip of
        None \<Rightarrow> s
      | Some n \<Rightarrow> if n \<noteq> 0 \<and> 0 < n then SkipIterable s n else s)"

definition Iterable_take :: "'a Iterable \<Rightarrow> int option \<Rightarrow> 'a Iterable" where
  "Iterable_take s toTake =
     (case toTake of
        None \<Rightarrow> ArrayListIterable (new_ArrayList None)
      | Some n \<Rightarrow> if n \<noteq> 0 \<and> 0 < n then TakeIterable s n else ArrayListIterable (new_ArrayList None))"

definition Iterable_map :: "'a Iterable \<Rightarrow> ('a option \<Rightarrow> 'a option) option \<Rightarrow> 'a Iterable" where
  "Iterable_map s mapFunction =
     (case mapFunction of
        None \<Rightarrow> ArrayListIterable (new_ArrayList None)
      | Some f \<Rightarrow> MapIterable s f)"

text \<open>\<open>concatenate\<close> with an array or an Iterable, whose values the constructor copies.\<close>

definition Iterable_concatenate ::
  "'a Iterable \<Rightarrow> ('a option list + 'a Iterable) option \<Rightarrow> 'a Iterable option" where
  "Iterable_concatenate s toConcatenate =
     (case toConcatenate of
        None \<Rightarrow> Some s
      | Some (Inl values) \<Rightarrow> Some (ConcatenateIterable s (new_ArrayList (Some values)))
      | Some (Inr values) \<Rightarrow>
          do { vs \<leftarrow> Iterable_toArray values;
               Some (ConcatenateIterable s (new_ArrayList (Some vs))) })"

text \<open>
  The Iterables that these operators build from ArrayLists and StringIterables:
  the counts that SkipIterable and TakeIterable hold are positive.  \<open>elements\<close>
  is the sequence such an Iterable stands for.
\<close>

primrec constructed :: "'a Iterable \<Rightarrow> bool" where
  "constructed (ArrayListIterable al) = True"
| "constructed (StringIterable t) = True"
| "constructed (WhereIterable innerIterable condition) = constructed innerIterable"
| "constructed (SkipIterable innerIterable toSkip) = (0 < toSkip \<and> constructed innerIterable)"
| "constructed (TakeIterable innerIterable toTake) = (0 < toTake \<and> constructed innerIterable)"
| "constructed (MapIterable innerIterable mapFunction) = constructed innerIterable"
| "constructed (ConcatenateIterable first second) = constructed first"

primrec elements :: "'a Iterable \<Rightarrow> 'a option list" where
  "elements (ArrayListIterable al) = ArrayList_elements al"
| "elements (StringIterable t) = (case t of None \<Rightarrow> [] | Some cs \<Rightarrow> map Some cs)"
| "elements (WhereIterable innerIterable condition) = filter condition (elements innerIterable)"
| "elements (SkipIterable innerIterable toSkip) = drop (nat toSkip) (elements innerIterable)"
| "elements (TakeIterable innerIterable toTake) = take (nat toTake) (elements innerIterable)"
| "elements (MapIterable innerIterable mapFunction) = map mapFunction (elements innerIterable)"
| "elements (ConcatenateIterable first second) = elements first @ ArrayList_elements second"

text \<open>\<open>Array.prototype.slice(start, end)\<close> for \<open>0 \<le> start \<le> end\<close>.\<close>

definition slice :: "'v list \<Rightarrow> nat \<Rightarrow> nat \<Rightarrow> 'v list" where
  "slice xs start end = take (end - start) (drop start xs)"

section \<open>Map\<close>

text \<open>
  A Map keeps its pairs in an ArrayList.  Keys are compared with \<open>===\<close>, which
  is equality here; a value may be \<open>undefined\<close>.  Reading \<open>key\<close> of an undefined
  pair raises, so the comparer that \<open>add\<close> passes to \<open>remove\<close> has no result
  on one.
\<close>

record ('k, 'v) KeyValuePair =
  kv_key :: 'k
  kv_value :: "'v option"

record ('k, 'v) Map =
  Map_pairs :: "('k, 'v) KeyValuePair ArrayList"

definition keyComparer ::
  "('k, 'v) KeyValuePair option \<Rightarrow> ('k, 'v) KeyValuePair option \<Rightarrow> bool option" where
  "keyComparer lhs rhs =
     (case lhs of
        None \<Rightarrow> None
      | Some l \<Rightarrow> (case rhs of None \<Rightarrow> None | Some r \<Rightarrow> Some (kv_key l = kv_key r)))"

definition Map_getCount :: "('k, 'v) Map \<Rightarrow> int" where
  "Map_getCount m = ArrayList_getCount (Map_pairs m)"

definition Map_add :: "('k, 'v) Map \<Rightarrow> 'k \<Rightarrow> 'v option \<Rightarrow> ('k, 'v) Map option" where
  "Map_add m k v =
     (let pair = \<lparr> kv_key = k, kv_value = v \<rparr> in
      case ArrayList_remove (Map_pairs m) (Some pair) (Some keyComparer) of
        None \<Rightarrow> None
      | Some (removed, pairs1) \<Rightarrow> Some (m\<lparr> Map_pairs := ArrayList_add pairs1 (Some pair) \<rparr>))"

fun Map_addAll_loop :: "('k, 'v) Map \<Rightarrow> ('k, 'v) KeyValuePair option list \<Rightarrow> ('k, 'v) Map option" where
  "Map_addAll_loop m [] = Some m"
| "Map_addAll_loop m (keyValuePair # rest) =
     (case keyValuePair of
        None \<Rightarrow> None
      | Some p \<Rightarrow>
          (case Map_add m (kv_key p) (kv_value p) of
             None \<Rightarrow> None
           | Some m1 \<Rightarrow> Map_addAll_loop m1 rest))"

definition Map_addAll :: "('k, 'v) Map \<Rightarrow> ('k, 'v) KeyValuePair option list option \<Rightarrow> ('k, 'v) Map option" where
  "Map_addAll m keyValuePairs =
     (case keyValuePairs of None \<Rightarrow> Some m | Some ps \<Rightarrow> Map_addAll_loop m ps)"

definition new_Map :: "('k, 'v) KeyValuePair option list option \<Rightarrow> ('k, 'v) Map option" where
  "new_Map initialValues = Map_addAll \<lparr> Map_pairs = new_ArrayList None \<rparr> initialValues"

text \<open>
  \<open>get\<close> asks the pairs for the first one with the key, through
  \<open>IterableBase.first\<close> and \<open>IteratorBase.first\<close>.  The condition is only
  applied to current values of the ArrayList iterator, which are pairs in a Map
  that \<open>add\<close> has built.
\<close>

definition Map_get :: "('k, 'v) Map \<Rightarrow> 'k \<Rightarrow> 'v option option" where
  "Map_get m k =
     do { (pair, it) \<leftarrow> Iterator_first libraryLeaf (Leaf (OfArrayList (ArrayList_iterate (Map_pairs m))))
                          (Some (\<lambda>pair. case pair of None \<Rightarrow> False | Some p \<Rightarrow> kv_key p = k));
          Some (case pair of None \<Rightarrow> None | Some p \<Rightarrow> kv_value p) }"

text \<open>
  The pairs of a Map in order, and the Maps that the constructor and \<open>add\<close>
  build: every entry is a pair and no key occurs twice.
\<close>

definition Map_entries :: "('k, 'v) Map \<Rightarrow> ('k, 'v) KeyValuePair option list" where
  "Map_entries m = ArrayList_elements (Map_pairs m)"

definition Map_ok :: "('k, 'v) Map \<Rightarrow> bool" where
  "Map_ok m \<longleftrightarrow>
     list_all (\<lambda>e. e \<noteq> None) (Map_entries m) \<and> distinct (map (map_option kv_key) (Map_entries m))"

definition otherKeys :: "'k \<Rightarrow> ('k, 'v) KeyValuePair option list \<Rightarrow> ('k, 'v) KeyValuePair option list" where
  "otherKeys k es = filter (\<lambda>e. map_option kv_key e \<noteq> Some k) es"

section \<open>Properties of Span\<close>

lemma numberToString_3: "numberToString 3 = ''3''"
  by (simp add: numberToString_def digitsOf.simps)

lemma numberToString_5: "numberToString 5 = ''5''"
  by (simp add: numberToString_def digitsOf.simps)



section \<open>Every iterator is a cursor over its sequence\<close>

lemma call_Leaf: "call L m (Leaf b) = Leaf_methods L m b"
  by (subst call.simps) simp

lemma call_Where:
  "call L m (WhereIterator inner condition) = WhereIterator_methods (call L) m inner condition"
  by (subst call.simps) simp

lemma call_Skip:
  "call L m (SkipIterator inner toSkip skipped) = SkipIterator_methods (call L) m inner toSkip skipped"
  by (subst call.simps) simp

lemma call_Take:
  "call L m (TakeIterator inner toTake taken) = TakeIterator_methods (call L) m inner toTake taken"
  by (subst call.simps) simp

lemma call_Map:
  "call L m (MapIterator inner mapFunction started) = MapIterator_methods (call L) m inner mapFunction started"
  by (subst call.simps) simp

lemma call_Concatenate:
  "call L m (ConcatenateIterator first second) = ConcatenateIterator_methods (call L) m first second"
  by (subst call.simps) simp

lemma isTrue_Bool [simp]: "isTrue (Bool b) = b"
  by (simp add: isTrue_def)

lemma valueOf_Value [simp]: "valueOf (Value v) = v"
  by (simp add: valueOf_def)

lemma headOption_simps [simp]: "headOption [] = None" "headOption (x # xs) = Some x"
  by (simp_all add: headOption_def)

lemma headOption_eq_None [simp]: "(headOption xs = None) = (xs = [])"
  by (cases xs) simp_all

lemma headOption_take: "headOption (take n xs) = (if n = 0 then None else headOption xs)"
  by (cases xs; cases n) simp_all

lemma headOption_map: "headOption (map f xs) = map_option f (headOption xs)"
  by (cases xs) simp_all

lemma headOption_append: "headOption (xs @ ys) = (case headOption xs of None \<Rightarrow> headOption ys | Some x \<Rightarrow> Some x)"
  by (cases xs) simp_all

lemma nat_diff_pred: "nat (n - (k + 1)) = nat (n - k) - Suc 0"
  by arith

lemma cursorE:
  assumes "cursor L V it"
  obtains h g n where
    "call L HasCurrent it = Some (Bool (current V it \<noteq> None), h)" "keeps L V it h"
    "call L GetCurrent it = Some (Value (currentValue (current V it)), g)" "keeps L V it g"
    "call L Next it = Some (Bool (upcoming V it \<noteq> []), n)" "advances L V it n"
  using assms unfolding cursor_def by blast

lemma cursor_Leaf:
  assumes "leaf_contract L V" "view_ok V b"
  shows "cursor L V (Leaf b)"
  using assms unfolding cursor_def leaf_contract_def keeps_def advances_def
  by (auto simp: call_Leaf Leaf_methods_def)

lemma cursor_Take:
  assumes H: "\<And>i. depth i = depth inner \<Longrightarrow> leaves_ok V i \<Longrightarrow> cursor L V i"
    and ok: "leaves_ok V inner"
  shows "cursor L V (TakeIterator inner toTake taken)"
proof -
  from H[OF refl ok] obtain i1 i3 where
    hc: "call L HasCurrent inner = Some (Bool (current V inner \<noteq> None), i1)" and k1: "keeps L V inner i1"
    and nx: "call L Next inner = Some (Bool (upcoming V inner \<noteq> []), i3)" and a3: "advances L V inner i3"
    by (elim cursorE)
  have c1: "cursor L V i1" using H k1 by (simp add: keeps_def)
  have c3: "cursor L V i3" using H a3 by (simp add: advances_def)
  from c1 obtain i1g where g1: "call L GetCurrent i1 = Some (Value (currentValue (current V i1)), i1g)"
    and k1g: "keeps L V i1 i1g" by (elim cursorE)
  from c3 obtain i3h where h3: "call L HasCurrent i3 = Some (Bool (current V i3 \<noteq> None), i3h)"
    and k3h: "keeps L V i3 i3h" by (elim cursorE)
  have P1: "\<exists>it'. call L HasCurrent (TakeIterator inner toTake taken)
        = Some (Bool (current V (TakeIterator inner toTake taken) \<noteq> None), it')
      \<and> keeps L V (TakeIterator inner toTake taken) it'"
    using hc k1 by (auto simp: call_Take TakeIterator_methods_def keeps_def split: option.splits)
  have P2: "\<exists>it'. call L GetCurrent (TakeIterator inner toTake taken)
        = Some (Value (currentValue (current V (TakeIterator inner toTake taken))), it')
      \<and> keeps L V (TakeIterator inner toTake taken) it'"
    using hc k1 g1 k1g
    by (auto simp: call_Take TakeIterator_methods_def keeps_def currentValue_def split: option.splits)
  have P3: "\<exists>it'. call L Next (TakeIterator inner toTake taken)
        = Some (Bool (upcoming V (TakeIterator inner toTake taken) \<noteq> []), it')
      \<and> advances L V (TakeIterator inner toTake taken) it'"
  proof (cases "canTakeValue toTake taken")
    case True
    then obtain n where n: "toTake = Some n" "taken \<le> n"
      by (auto simp: canTakeValue_def split: option.splits)
    show ?thesis
      using True n nx a3 h3 k3h
      by (auto simp: call_Take TakeIterator_methods_def keeps_def advances_def canTakeValue_def
          headOption_take tl_take take_eq_Nil nat_diff_pred)
  next
    case False
    then show ?thesis
      using hc k1
      by (auto simp: call_Take TakeIterator_methods_def keeps_def advances_def canTakeValue_def
          split: option.splits)
  qed
  show ?thesis unfolding cursor_def using P1 P2 P3 by blast
qed

lemma cursor_Map:
  assumes H: "\<And>i. depth i = depth inner \<Longrightarrow> leaves_ok V i \<Longrightarrow> cursor L V i"
    and ok: "leaves_ok V inner"
  shows "cursor L V (MapIterator inner mapFunction started)"
proof (cases mapFunction)
  case None
  then show ?thesis
    using ok by (auto simp: cursor_def call_Map MapIterator_methods_def keeps_def advances_def currentValue_def)
next
  case (Some f)
  from H[OF refl ok] obtain i1 i3 where
    hc: "call L HasCurrent inner = Some (Bool (current V inner \<noteq> None), i1)" and k1: "keeps L V inner i1"
    and nx: "call L Next inner = Some (Bool (upcoming V inner \<noteq> []), i3)" and a3: "advances L V inner i3"
    by (elim cursorE)
  have c1: "cursor L V i1" using H k1 by (simp add: keeps_def)
  from c1 obtain i1g where g1: "call L GetCurrent i1 = Some (Value (currentValue (current V i1)), i1g)"
    and k1g: "keeps L V i1 i1g" by (elim cursorE)
  have P1: "\<exists>it'. call L HasCurrent (MapIterator inner mapFunction started)
        = Some (Bool (current V (MapIterator inner mapFunction started) \<noteq> None), it')
      \<and> keeps L V (MapIterator inner mapFunction started) it'"
    using Some hc k1 by (auto simp: call_Map MapIterator_methods_def keeps_def)
  have P2: "\<exists>it'. call L GetCurrent (MapIterator inner mapFunction started)
        = Some (Value (currentValue (current V (MapIterator inner mapFunction started))), it')
      \<and> keeps L V (MapIterator inner mapFunction started) it'"
    using Some hc k1 g1 k1g
    by (auto simp: call_Map MapIterator_methods_def keeps_def currentValue_def)
  have P3: "\<exists>it'. call L Next (MapIterator inner mapFunction started)
        = Some (Bool (upcoming V (MapIterator inner mapFunction started) \<noteq> []), it')
      \<and> advances L V (MapIterator inner mapFunction started) it'"
    using Some nx a3
    by (auto simp: call_Map MapIterator_methods_def advances_def headOption_map map_tl)
  show ?thesis unfolding cursor_def using P1 P2 P3 by blast
qed

lemma cursor_Concatenate:
  assumes H1: "\<And>i. depth i = depth first \<Longrightarrow> leaves_ok V i \<Longrightarrow> cursor L V i"
    and H2: "\<And>i. depth i = depth second \<Longrightarrow> leaves_ok V i \<Longrightarrow> cursor L V i"
    and ok1: "leaves_ok V first" and ok2: "leaves_ok V second"
  shows "cursor L V (ConcatenateIterator first second)"
proof -
  from H1[OF refl ok1] obtain f1 f3 where
    hc: "call L HasCurrent first = Some (Bool (current V first \<noteq> None), f1)" and k1: "keeps L V first f1"
    and nx: "call L Next first = Some (Bool (upcoming V first \<noteq> []), f3)" and a3: "advances L V first f3"
    by (elim cursorE)
  from H2[OF refl ok2] obtain s1 s2 s3 where
    shc: "call L HasCurrent second = Some (Bool (current V second \<noteq> None), s1)" and sk1: "keeps L V second s1"
    and sgc: "call L GetCurrent second = Some (Value (currentValue (current V second)), s2)" and sk2: "keeps L V second s2"
    and snx: "call L Next second = Some (Bool (upcoming V second \<noteq> []), s3)" and sa3: "advances L V second s3"
    by (elim cursorE)
  have c1: "cursor L V f1" using H1 k1 by (simp add: keeps_def)
  from c1 obtain f1g where g1: "call L GetCurrent f1 = Some (Value (currentValue (current V f1)), f1g)"
    and k1g: "keeps L V f1 f1g" by (elim cursorE)
  have P1: "\<exists>it'. call L HasCurrent (ConcatenateIterator first second)
        = Some (Bool (current V (ConcatenateIterator first second) \<noteq> None), it')
      \<and> keeps L V (ConcatenateIterator first second) it'"
    using hc k1 shc sk1 ok2
    by (auto simp: call_Concatenate ConcatenateIterator_methods_def keeps_def split: option.splits)
  have P2: "\<exists>it'. call L GetCurrent (ConcatenateIterator first second)
        = Some (Value (currentValue (current V (ConcatenateIterator first second))), it')
      \<and> keeps L V (ConcatenateIterator first second) it'"
    using hc k1 g1 k1g sgc sk2 ok2
    by (auto simp: call_Concatenate ConcatenateIterator_methods_def keeps_def currentValue_def split: option.splits)
  have P3: "\<exists>it'. call L Next (ConcatenateIterator first second)
        = Some (Bool (upcoming V (ConcatenateIterator first second) \<noteq> []), it')
      \<and> advances L V (ConcatenateIterator first second) it'"
    using nx a3 snx sa3 ok2
    by (auto simp: call_Concatenate ConcatenateIterator_methods_def advances_def headOption_append
        split: option.splits)
  show ?thesis unfolding cursor_def using P1 P2 P3 by blast
qed

lemma where_next_loop:
  assumes H: "\<And>i. depth i = d \<Longrightarrow> leaves_ok V i \<Longrightarrow> cursor L V i"
  shows "depth inner = d \<Longrightarrow> leaves_ok V inner \<Longrightarrow>
     \<exists>i'. call L Next (WhereIterator inner (Some c))
             = Some (Bool (filter c (upcoming V inner) \<noteq> []), WhereIterator i' (Some c))
        \<and> depth i' = d \<and> leaves_ok V i'
        \<and> current V i' = headOption (filter c (upcoming V inner))
        \<and> filter c (upcoming V i') = tl (filter c (upcoming V inner))
        \<and> (Iterator_hasStarted L inner \<or> startable inner \<longrightarrow> Iterator_hasStarted L i')"
proof (induction "length (upcoming V inner)" arbitrary: inner rule: less_induct)
  case less
  from H[OF less.prems] obtain i3 where
    nx: "call L Next inner = Some (Bool (upcoming V inner \<noteq> []), i3)" and a3: "advances L V inner i3"
    by (elim cursorE)
  have d3: "depth i3 = d" and ok3: "leaves_ok V i3" using a3 less.prems by (simp_all add: advances_def)
  from H[OF d3 ok3] obtain i3h i3g where
    h3: "call L HasCurrent i3 = Some (Bool (current V i3 \<noteq> None), i3h)" and k3h: "keeps L V i3 i3h"
    and g3: "call L GetCurrent i3 = Some (Value (currentValue (current V i3)), i3g)" and k3g: "keeps L V i3 i3g"
    by (elim cursorE)
  show ?case
  proof (cases "upcoming V inner")
    case Nil
    then show ?thesis
      using nx a3 h3 k3h less.prems
      by (auto simp: call_Where WhereIterator_methods_def advances_def keeps_def)
  next
    case (Cons x xs)
    have cur3: "current V i3 = Some x" and up3: "upcoming V i3 = xs"
      using a3 Cons by (simp_all add: advances_def)
    have dg: "depth i3g = d" and okg: "leaves_ok V i3g" and upg: "upcoming V i3g = xs"
      and curg: "current V i3g = Some x"
      using k3g d3 up3 cur3 by (simp_all add: keeps_def)
    show ?thesis
    proof (cases "c x")
      case True
      from H[OF dg okg] obtain j where
        hj: "call L HasCurrent i3g = Some (Bool (current V i3g \<noteq> None), j)" and kj: "keeps L V i3g j"
        by (elim cursorE)
      show ?thesis
        using True Cons nx g3 cur3 hj kj curg upg dg a3 k3g
        by (auto simp: call_Where WhereIterator_methods_def advances_def keeps_def currentValue_def)
    next
      case False
      have "length (upcoming V i3g) < length (upcoming V inner)" using upg Cons by simp
      from less.hyps[OF this dg okg] obtain i' where
        r: "call L Next (WhereIterator i3g (Some c))
             = Some (Bool (filter c (upcoming V i3g) \<noteq> []), WhereIterator i' (Some c))"
        and p: "depth i' = d" "leaves_ok V i'"
          "current V i' = headOption (filter c (upcoming V i3g))"
          "filter c (upcoming V i') = tl (filter c (upcoming V i3g))"
          "Iterator_hasStarted L i3g \<or> startable i3g \<longrightarrow> Iterator_hasStarted L i'"
        by blast
      have "call L Next (WhereIterator inner (Some c)) = call L Next (WhereIterator i3g (Some c))"
        using False Cons nx g3 cur3
        by (subst call_Where) (simp add: WhereIterator_methods_def currentValue_def)
      then show ?thesis
        using r p False Cons upg a3 k3g
        by (auto simp: advances_def keeps_def)
    qed
  qed
qed

lemma cursor_Where:
  assumes H: "\<And>i. depth i = depth inner \<Longrightarrow> leaves_ok V i \<Longrightarrow> cursor L V i"
    and ok: "leaves_ok V inner"
  shows "cursor L V (WhereIterator inner condition)"
proof -
  from H[OF refl ok] obtain i1 i2 i3 where
    hc: "call L HasCurrent inner = Some (Bool (current V inner \<noteq> None), i1)" and k1: "keeps L V inner i1"
    and gc: "call L GetCurrent inner = Some (Value (currentValue (current V inner)), i2)" and k2: "keeps L V inner i2"
    and nx: "call L Next inner = Some (Bool (upcoming V inner \<noteq> []), i3)" and a3: "advances L V inner i3"
    by (elim cursorE)
  have P1: "\<exists>it'. call L HasCurrent (WhereIterator inner condition)
        = Some (Bool (current V (WhereIterator inner condition) \<noteq> None), it')
      \<and> keeps L V (WhereIterator inner condition) it'"
    using hc k1 by (auto simp: call_Where WhereIterator_methods_def keeps_def split: option.splits)
  have P2: "\<exists>it'. call L GetCurrent (WhereIterator inner condition)
        = Some (Value (currentValue (current V (WhereIterator inner condition))), it')
      \<and> keeps L V (WhereIterator inner condition) it'"
    using gc k2 by (auto simp: call_Where WhereIterator_methods_def keeps_def split: option.splits)
  have P3: "\<exists>it'. call L Next (WhereIterator inner condition)
        = Some (Bool (upcoming V (WhereIterator inner condition) \<noteq> []), it')
      \<and> advances L V (WhereIterator inner condition) it'"
  proof (cases condition)
    case None
    have c3: "cursor L V i3" using H a3 by (simp add: advances_def)
    from c3 obtain i3h where h3: "call L HasCurrent i3 = Some (Bool (current V i3 \<noteq> None), i3h)"
      and k3h: "keeps L V i3 i3h" by (elim cursorE)
    show ?thesis
      using None nx a3 h3 k3h
      by (auto simp: call_Where WhereIterator_methods_def advances_def keeps_def)
  next
    case (Some c)
    from where_next_loop[where c = c, OF H refl ok] show ?thesis
      using Some by (auto simp: advances_def)
  qed
  show ?thesis unfolding cursor_def using P1 P2 P3 by blast
qed

lemma pendingSkips_0_iff: "pendingSkips toSkip skipped = 0 \<longleftrightarrow> (case toSkip of None \<Rightarrow> True | Some n \<Rightarrow> \<not> skipped < n)"
  by (auto simp: pendingSkips_def split: option.splits)

lemma skipValues_loop:
  assumes H: "\<And>i. depth i = d \<Longrightarrow> leaves_ok V i \<Longrightarrow> cursor L V i"
  shows "depth inner = d \<Longrightarrow> leaves_ok V inner \<Longrightarrow>
     \<exists>i' skipped'. call L SkipValues (SkipIterator inner toSkip skipped)
             = Some (Void, SkipIterator i' toSkip skipped')
        \<and> pendingSkips toSkip skipped' = 0
        \<and> depth i' = d \<and> leaves_ok V i'
        \<and> current V i' = (if pendingSkips toSkip skipped = 0 then current V inner
                            else headOption (drop (pendingSkips toSkip skipped - 1) (upcoming V inner)))
        \<and> upcoming V i' = drop (pendingSkips toSkip skipped) (upcoming V inner)
        \<and> (pendingSkips toSkip skipped = 0 \<longrightarrow> i' = inner)
        \<and> (Iterator_hasStarted L inner \<longrightarrow> Iterator_hasStarted L i')
        \<and> (0 < pendingSkips toSkip skipped \<and> startable inner \<longrightarrow> Iterator_hasStarted L i')"
proof (induction "pendingSkips toSkip skipped" arbitrary: inner skipped)
  case 0
  then show ?case
    by (auto simp: call_Skip SkipIterator_methods_def pendingSkips_def split: option.splits)
next
  case (Suc k)
  from Suc.hyps(2) obtain n where n: "toSkip = Some n" "skipped < n" and k: "k = nat (n - skipped) - 1"
    by (auto simp: pendingSkips_def split: option.splits)
  from H[OF Suc.prems] obtain i3 where
    nx: "call L Next inner = Some (Bool (upcoming V inner \<noteq> []), i3)" and a3: "advances L V inner i3"
    by (elim cursorE)
  have d3: "depth i3 = d" and ok3: "leaves_ok V i3" using a3 Suc.prems by (simp_all add: advances_def)
  have step: "call L SkipValues (SkipIterator inner toSkip skipped)
      = call L SkipValues (SkipIterator i3 toSkip (if upcoming V inner = [] then n else skipped + 1))"
    using n nx by (subst call_Skip) (simp add: SkipIterator_methods_def)
  show ?case
  proof (cases "upcoming V inner")
    case Nil
    have "call L SkipValues (SkipIterator i3 toSkip n) = Some (Void, SkipIterator i3 toSkip n)"
      using n by (subst call_Skip) (simp add: SkipIterator_methods_def)
    then show ?thesis
      using step Nil n a3 d3 ok3 Suc.hyps(2)
      by (auto simp: advances_def pendingSkips_def)
  next
    case (Cons x xs)
    have pk: "k = pendingSkips toSkip (skipped + 1)" using n k by (simp add: pendingSkips_def nat_diff_pred)
    from Suc.hyps(1)[OF pk d3 ok3] obtain i' skipped' where
      r: "call L SkipValues (SkipIterator i3 toSkip (skipped + 1)) = Some (Void, SkipIterator i' toSkip skipped')"
      and p: "pendingSkips toSkip skipped' = 0" "depth i' = d" "leaves_ok V i'"
        "current V i' = (if pendingSkips toSkip (skipped + 1) = 0 then current V i3
                            else headOption (drop (pendingSkips toSkip (skipped + 1) - 1) (upcoming V i3)))"
        "upcoming V i' = drop (pendingSkips toSkip (skipped + 1)) (upcoming V i3)"
        "Iterator_hasStarted L i3 \<longrightarrow> Iterator_hasStarted L i'"
      by blast
    have cur3: "current V i3 = Some x" and up3: "upcoming V i3 = xs"
      using a3 Cons by (simp_all add: advances_def)
    have hs3: "Iterator_hasStarted L inner \<or> startable inner \<longrightarrow> Iterator_hasStarted L i3"
      using a3 by (simp add: advances_def)
    have cur': "current V i' = headOption (drop k (upcoming V inner))"
      using p(4) cur3 up3 Cons unfolding pk[symmetric] by (cases k) auto
    have up': "upcoming V i' = drop (Suc k) (upcoming V inner)"
      using p(5) up3 Cons unfolding pk[symmetric] by simp
    show ?thesis
      using step Cons r p(1,2,3,6) cur' up' hs3 Suc.hyps(2)[symmetric]
      by auto
  qed
qed

lemma current_Skip_done:
  "pendingSkips toSkip skipped = 0 \<Longrightarrow> current V (SkipIterator j toSkip skipped) = current V j"
  by (cases "current V j") simp_all

lemma upcoming_Skip_done:
  "pendingSkips toSkip skipped = 0 \<Longrightarrow> upcoming V (SkipIterator j toSkip skipped) = upcoming V j"
  by simp

lemma upcoming_Skip: "upcoming V (SkipIterator i toSkip skipped) = drop (pendingSkips toSkip skipped) (upcoming V i)"
  by simp

lemma cursor_Skip:
  assumes H: "\<And>i. depth i = depth inner \<Longrightarrow> leaves_ok V i \<Longrightarrow> cursor L V i"
    and ok: "leaves_ok V inner"
  shows "cursor L V (SkipIterator inner toSkip skipped)"
proof -
  let ?p = "pendingSkips toSkip skipped"
  from H[OF refl ok] obtain i1 where
    hc: "call L HasCurrent inner = Some (Bool (current V inner \<noteq> None), i1)" and k1: "keeps L V inner i1"
    by (elim cursorE)
  have d1: "depth i1 = depth inner" and ok1: "leaves_ok V i1"
    and cur1: "current V i1 = current V inner" and up1: "upcoming V i1 = upcoming V inner"
    and hs1: "Iterator_hasStarted L inner \<longrightarrow> Iterator_hasStarted L i1"
    using k1 by (simp_all add: keeps_def)
  from H[OF d1 ok1] obtain i1h i1g where
    h1: "call L HasCurrent i1 = Some (Bool (current V i1 \<noteq> None), i1h)" and k1h: "keeps L V i1 i1h"
    and g1: "call L GetCurrent i1 = Some (Value (currentValue (current V i1)), i1g)" and k1g: "keeps L V i1 i1g"
    by (elim cursorE)
  from skipValues_loop[where toSkip = toSkip and skipped = skipped, OF H d1 ok1] obtain i' skipped' where
    sv: "call L SkipValues (SkipIterator i1 toSkip skipped) = Some (Void, SkipIterator i' toSkip skipped')"
    and p0: "pendingSkips toSkip skipped' = 0" and d': "depth i' = depth inner" and ok': "leaves_ok V i'"
    and cur': "current V i' = (if ?p = 0 then current V i1 else headOption (drop (?p - 1) (upcoming V i1)))"
    and up': "upcoming V i' = drop ?p (upcoming V i1)"
    and hs': "Iterator_hasStarted L i1 \<longrightarrow> Iterator_hasStarted L i'"
    by blast
  from H[OF d' ok'] obtain j jg where
    hj: "call L HasCurrent i' = Some (Bool (current V i' \<noteq> None), j)" and kj: "keeps L V i' j"
    and gj: "call L GetCurrent i' = Some (Value (currentValue (current V i')), jg)" and kjg: "keeps L V i' jg"
    by (elim cursorE)
  have curS: "current V inner = Some x \<Longrightarrow> current V (SkipIterator inner toSkip skipped) = current V i'" for x
    using cur' cur1 up1 by (cases ?p) simp_all
  have P1: "\<exists>it'. call L HasCurrent (SkipIterator inner toSkip skipped)
        = Some (Bool (current V (SkipIterator inner toSkip skipped) \<noteq> None), it')
      \<and> keeps L V (SkipIterator inner toSkip skipped) it'"
  proof (cases "current V inner")
    case None
    then show ?thesis
      using hc h1 k1h cur1 up1 d1 hs1
      by (auto simp: call_Skip SkipIterator_methods_def keeps_def)
  next
    case (Some x)
    have "call L HasCurrent (SkipIterator inner toSkip skipped)
        = Some (Bool (current V i' \<noteq> None), SkipIterator j toSkip skipped')"
      using Some hc sv hj by (subst call_Skip) (simp add: SkipIterator_methods_def)
    moreover have "keeps L V (SkipIterator inner toSkip skipped) (SkipIterator j toSkip skipped')"
      using kj curS[OF Some] d' up' up1 hs1 hs'
      by (simp add: keeps_def current_Skip_done[OF p0] upcoming_Skip p0
          del: current.simps upcoming.simps)
    ultimately show ?thesis using curS[OF Some] by auto
  qed
  have P2: "\<exists>it'. call L GetCurrent (SkipIterator inner toSkip skipped)
        = Some (Value (currentValue (current V (SkipIterator inner toSkip skipped))), it')
      \<and> keeps L V (SkipIterator inner toSkip skipped) it'"
  proof (cases "current V inner")
    case None
    then show ?thesis
      using hc g1 k1g cur1 up1 d1 hs1
      by (auto simp: call_Skip SkipIterator_methods_def keeps_def currentValue_def)
  next
    case (Some x)
    have "call L GetCurrent (SkipIterator inner toSkip skipped)
        = Some (Value (currentValue (current V i')), SkipIterator jg toSkip skipped')"
      using Some hc sv gj by (subst call_Skip) (simp add: SkipIterator_methods_def)
    moreover have "keeps L V (SkipIterator inner toSkip skipped) (SkipIterator jg toSkip skipped')"
      using kjg curS[OF Some] d' up' up1 hs1 hs'
      by (simp add: keeps_def current_Skip_done[OF p0] upcoming_Skip p0
          del: current.simps upcoming.simps)
    ultimately show ?thesis using curS[OF Some] by auto
  qed
  have P3: "\<exists>it'. call L Next (SkipIterator inner toSkip skipped)
        = Some (Bool (upcoming V (SkipIterator inner toSkip skipped) \<noteq> []), it')
      \<and> advances L V (SkipIterator inner toSkip skipped) it'"
  proof -
    have "\<exists>i' skipped'. call L SkipValues (SkipIterator inner toSkip skipped)
             = Some (Void, SkipIterator i' toSkip skipped')
        \<and> pendingSkips toSkip skipped' = 0
        \<and> depth i' = depth inner \<and> leaves_ok V i'
        \<and> current V i' = (if ?p = 0 then current V inner
                            else headOption (drop (?p - 1) (upcoming V inner)))
        \<and> upcoming V i' = drop ?p (upcoming V inner)
        \<and> (?p = 0 \<longrightarrow> i' = inner)
        \<and> (Iterator_hasStarted L inner \<longrightarrow> Iterator_hasStarted L i')
        \<and> (0 < ?p \<and> startable inner \<longrightarrow> Iterator_hasStarted L i')"
      using H ok by (intro skipValues_loop[where d = "depth inner"]) simp_all
    then obtain a skippeda where
      sva: "call L SkipValues (SkipIterator inner toSkip skipped) = Some (Void, SkipIterator a toSkip skippeda)"
      and pa: "pendingSkips toSkip skippeda = 0" and da: "depth a = depth inner" and oka: "leaves_ok V a"
      and upa: "upcoming V a = drop ?p (upcoming V inner)"
      and same: "?p = 0 \<longrightarrow> a = inner"
      and hsa: "Iterator_hasStarted L inner \<longrightarrow> Iterator_hasStarted L a"
      and hsb: "0 < ?p \<and> startable inner \<longrightarrow> Iterator_hasStarted L a"
      by (elim exE conjE)
    from H[OF da oka] obtain n where
      nx: "call L Next a = Some (Bool (upcoming V a \<noteq> []), n)" and an: "advances L V a n"
      by (elim cursorE)
    have "call L Next (SkipIterator inner toSkip skipped)
        = Some (Bool (upcoming V a \<noteq> []), SkipIterator n toSkip skippeda)"
      using sva nx by (subst call_Skip) (simp add: SkipIterator_methods_def)
    moreover have "advances L V (SkipIterator inner toSkip skipped) (SkipIterator n toSkip skippeda)"
      using an da upa same hsa hsb
      by (cases "?p = 0")
        (auto simp add: advances_def current_Skip_done[OF pa] upcoming_Skip pa
          simp del: current.simps upcoming.simps)
    ultimately show ?thesis using upa by auto
  qed
  show ?thesis unfolding cursor_def using P1 P2 P3 by blast
qed

theorem cursor_all:
  assumes "leaf_contract L V"
  shows "leaves_ok V it \<Longrightarrow> cursor L V it"
proof (induction "depth it" arbitrary: it rule: less_induct)
  case less
  show ?case
  proof (cases it)
    case (Leaf b)
    then show ?thesis using assms less.prems by (simp add: cursor_Leaf)
  next
    case (WhereIterator inner condition)
    then show ?thesis using less by (auto intro!: cursor_Where)
  next
    case (SkipIterator inner toSkip skipped)
    then show ?thesis using less by (auto intro!: cursor_Skip)
  next
    case (TakeIterator inner toTake taken)
    then show ?thesis using less by (auto intro!: cursor_Take)
  next
    case (MapIterator inner mapFunction started)
    then show ?thesis using less by (auto intro!: cursor_Map)
  next
    case (ConcatenateIterator first second)
    then show ?thesis using less by (auto intro!: cursor_Concatenate)
  qed
qed

section \<open>The leaves of the library are cursors\<close>

lemma ArrayList_elements_length [simp]: "length (ArrayList_elements al) = al_count al"
  by (simp add: ArrayList_elements_def)

lemma ArrayList_elements_Nil [simp]: "(ArrayList_elements al = []) = (al_count al = 0)"
  by (simp add: ArrayList_elements_def)

lemma ArrayList_elements_nth:
  "i < al_count al \<Longrightarrow> ArrayList_elements al ! i = arrayIndex (al_data al) (int i)"
  by (simp add: ArrayList_elements_def)

lemma headOption_drop: "headOption (drop n xs) = (if n < length xs then Some (xs ! n) else None)"
  by (simp add: headOption_def hd_drop_conv_nth split: list.splits)
     (metis Cons_nth_drop_Suc list.inject drop_eq_Nil not_le list.distinct(1))

lemma ArrayList_elements_empty [simp]: "al_count al = 0 \<Longrightarrow> ArrayList_elements al = []"
  by (simp add: ArrayList_elements_def)

lemma headOption_rev: "headOption (rev xs) = (if xs = [] then None else Some (xs ! (length xs - 1)))"
  by (cases xs rule: rev_cases) (simp_all add: nth_append)

lemma tl_rev: "tl (rev xs) = rev (take (length xs - 1) xs)"
  by (cases xs rule: rev_cases) simp_all

lemma nat_minus_one: "nat (x - 1) = nat x - Suc 0"
  by arith

lemma headOption_rev_take:
  "n \<le> length xs \<Longrightarrow> headOption (rev (take n xs)) = (if n = 0 then None else Some (xs ! (n - 1)))"
  by (cases n) (simp_all add: take_Suc_conv_app_nth)

lemma tl_rev_take: "n \<le> length xs \<Longrightarrow> tl (rev (take n xs)) = rev (take (n - 1) xs)"
  by (cases n) (simp_all add: take_Suc_conv_app_nth)

lemma forward_contract:
  assumes "arrayListIterator_ok (ArrayListForwardIterator al idx)"
  shows "ArrayListIterator_hasCurrent (ArrayListForwardIterator al idx)
           = (arrayListIterator_current (ArrayListForwardIterator al idx) \<noteq> None)"
    and "ArrayListIterator_getCurrent (ArrayListForwardIterator al idx)
           = currentValue (arrayListIterator_current (ArrayListForwardIterator al idx))"
    and "fst (ArrayListIterator_next (ArrayListForwardIterator al idx))
           = (arrayListIterator_upcoming (ArrayListForwardIterator al idx) \<noteq> [])"
    and "arrayListIterator_ok (snd (ArrayListIterator_next (ArrayListForwardIterator al idx)))"
    and "arrayListIterator_current (snd (ArrayListIterator_next (ArrayListForwardIterator al idx)))
           = headOption (arrayListIterator_upcoming (ArrayListForwardIterator al idx))"
    and "arrayListIterator_upcoming (snd (ArrayListIterator_next (ArrayListForwardIterator al idx)))
           = tl (arrayListIterator_upcoming (ArrayListForwardIterator al idx))"
    and "ArrayListIterator_hasStarted (snd (ArrayListIterator_next (ArrayListForwardIterator al idx)))"
proof -
  show "ArrayListIterator_hasCurrent (ArrayListForwardIterator al idx)
           = (arrayListIterator_current (ArrayListForwardIterator al idx) \<noteq> None)"
    using assms
    by (auto simp: ArrayListIterator_hasCurrent_def isDefined_def ArrayList_getCount_def split: option.splits)
  show "ArrayListIterator_getCurrent (ArrayListForwardIterator al idx)
           = currentValue (arrayListIterator_current (ArrayListForwardIterator al idx))"
    using assms
    by (auto simp: ArrayList_get_def currentValue_def split: option.splits)
  show "fst (ArrayListIterator_next (ArrayListForwardIterator al idx))
           = (arrayListIterator_upcoming (ArrayListForwardIterator al idx) \<noteq> [])"
    using assms
    by (auto simp: ArrayList_getCount_def Let_def split: option.splits)
  show "arrayListIterator_ok (snd (ArrayListIterator_next (ArrayListForwardIterator al idx)))"
    using assms
    by (auto simp: ArrayList_getCount_def Let_def split: option.splits)
  show "arrayListIterator_current (snd (ArrayListIterator_next (ArrayListForwardIterator al idx)))
           = headOption (arrayListIterator_upcoming (ArrayListForwardIterator al idx))"
    using assms
    by (auto simp: ArrayList_getCount_def Let_def headOption_drop ArrayList_elements_nth
        nat_add_distrib headOption_drop[where n = 0, simplified] split: option.splits)
  show "arrayListIterator_upcoming (snd (ArrayListIterator_next (ArrayListForwardIterator al idx)))
           = tl (arrayListIterator_upcoming (ArrayListForwardIterator al idx))"
    using assms
    by (auto simp: ArrayList_getCount_def Let_def drop_Suc tl_drop nat_add_distrib split: option.splits)
  show "ArrayListIterator_hasStarted (snd (ArrayListIterator_next (ArrayListForwardIterator al idx)))"
    by (auto simp: Let_def isDefined_def split: option.splits)
qed

lemma reverse_contract:
  assumes "arrayListIterator_ok (ArrayListReverseIterator al idx)"
  shows "ArrayListIterator_hasCurrent (ArrayListReverseIterator al idx)
           = (arrayListIterator_current (ArrayListReverseIterator al idx) \<noteq> None)"
    and "ArrayListIterator_getCurrent (ArrayListReverseIterator al idx)
           = currentValue (arrayListIterator_current (ArrayListReverseIterator al idx))"
    and "fst (ArrayListIterator_next (ArrayListReverseIterator al idx))
           = (arrayListIterator_upcoming (ArrayListReverseIterator al idx) \<noteq> [])"
    and "arrayListIterator_ok (snd (ArrayListIterator_next (ArrayListReverseIterator al idx)))"
    and "arrayListIterator_current (snd (ArrayListIterator_next (ArrayListReverseIterator al idx)))
           = headOption (arrayListIterator_upcoming (ArrayListReverseIterator al idx))"
    and "arrayListIterator_upcoming (snd (ArrayListIterator_next (ArrayListReverseIterator al idx)))
           = tl (arrayListIterator_upcoming (ArrayListReverseIterator al idx))"
    and "ArrayListIterator_hasStarted (snd (ArrayListIterator_next (ArrayListReverseIterator al idx)))"
proof -
  show "ArrayListIterator_hasCurrent (ArrayListReverseIterator al idx)
           = (arrayListIterator_current (ArrayListReverseIterator al idx) \<noteq> None)"
    using assms
    by (auto simp: ArrayListIterator_hasCurrent_def isDefined_def split: option.splits)
  show "ArrayListIterator_getCurrent (ArrayListReverseIterator al idx)
           = currentValue (arrayListIterator_current (ArrayListReverseIterator al idx))"
    using assms
    by (auto simp: ArrayList_get_def currentValue_def split: option.splits)
  show "fst (ArrayListIterator_next (ArrayListReverseIterator al idx))
           = (arrayListIterator_upcoming (ArrayListReverseIterator al idx) \<noteq> [])"
    using assms
    by (auto simp: ArrayList_getCount_def Let_def take_eq_Nil split: option.splits)
  show "arrayListIterator_ok (snd (ArrayListIterator_next (ArrayListReverseIterator al idx)))"
    using assms
    by (auto simp: ArrayList_getCount_def Let_def split: option.splits)
  show "arrayListIterator_current (snd (ArrayListIterator_next (ArrayListReverseIterator al idx)))
           = headOption (arrayListIterator_upcoming (ArrayListReverseIterator al idx))"
    using assms
    by (auto simp: ArrayList_getCount_def Let_def headOption_rev_take ArrayList_elements_nth
        headOption_rev nat_diff_distrib of_nat_diff split: option.splits)
  show "arrayListIterator_upcoming (snd (ArrayListIterator_next (ArrayListReverseIterator al idx)))
           = tl (arrayListIterator_upcoming (ArrayListReverseIterator al idx))"
    using assms
    by (auto simp: ArrayList_getCount_def Let_def tl_rev_take nat_minus_one tl_rev
        split: option.splits)
  show "ArrayListIterator_hasStarted (snd (ArrayListIterator_next (ArrayListReverseIterator al idx)))"
    by (auto simp: Let_def isDefined_def split: option.splits)
qed

lemma headOption_upto: "headOption (map f [i..j]) = (if i \<le> j then Some (f i) else None)"
  by (simp add: upto_rec1)

lemma tl_upto: "tl (map f [i..j]) = map f [i + 1..j]"
  by (cases "i \<le> j") (simp_all add: upto_rec1)

lemma headOption_rev_upto: "headOption (map f (rev [i..j])) = (if i \<le> j then Some (f j) else None)"
  by (simp add: upto_rec2)

lemma tl_rev_upto: "tl (map f (rev [i..j])) = map f (rev [i..j - 1])"
  by (cases "i \<le> j") (simp_all add: upto_rec2)

lemma map_upto_Nil [simp]: "(map f [i..j] = []) = (j < i)"
  by simp

lemma stringIterator_contract:
  assumes "stringIterator_ok it"
  shows "StringIterator_hasCurrent it = (stringIterator_current it \<noteq> None)"
    and "StringIterator_getCurrent it = Some (currentValue (stringIterator_current it))"
    and "fst (StringIterator_next it) = (stringIterator_upcoming it \<noteq> [])"
    and "stringIterator_ok (snd (StringIterator_next it))"
    and "stringIterator_current (snd (StringIterator_next it)) = headOption (stringIterator_upcoming it)"
    and "stringIterator_upcoming (snd (StringIterator_next it)) = tl (stringIterator_upcoming it)"
    and "StringIterator_hasStarted (snd (StringIterator_next it))"
proof -
  show "StringIterator_hasCurrent it = (stringIterator_current it \<noteq> None)"
    by (simp add: stringIterator_current_def)
  show "StringIterator_getCurrent it = Some (currentValue (stringIterator_current it))"
    using assms
    by (auto simp: StringIterator_getCurrent_def stringIterator_current_def currentValue_def
        stringIterator_ok_def StringIterator_hasCurrent_def stringIndex_def textAt_def
        split: option.splits)
  show "fst (StringIterator_next it) = (stringIterator_upcoming it \<noteq> [])"
    using assms
    by (auto simp: StringIterator_next_def stringIterator_upcoming_def stringIterator_ok_def
        StringIterator_hasMore_def Let_def)
  show "stringIterator_ok (snd (StringIterator_next it))"
    using assms
    by (auto simp: StringIterator_next_def stringIterator_ok_def StringIterator_hasMore_def Let_def)
  show "stringIterator_current (snd (StringIterator_next it)) = headOption (stringIterator_upcoming it)"
    using assms
    by (auto simp: StringIterator_next_def stringIterator_upcoming_def stringIterator_ok_def
        stringIterator_current_def StringIterator_hasCurrent_def StringIterator_hasStarted_def
        StringIterator_hasMore_def Let_def headOption_upto headOption_rev_upto)
  show "stringIterator_upcoming (snd (StringIterator_next it)) = tl (stringIterator_upcoming it)"
    using assms
    by (auto simp: StringIterator_next_def stringIterator_upcoming_def stringIterator_ok_def
        StringIterator_hasMore_def Let_def tl_upto tl_rev_upto)
  show "StringIterator_hasStarted (snd (StringIterator_next it))"
    by (auto simp: StringIterator_next_def StringIterator_hasStarted_def Let_def)
qed

lemma libraryLeaf_contract: "leaf_contract libraryLeaf libraryView"
  unfolding leaf_contract_def
proof (intro allI impI)
  fix b :: "'a LibraryLeaf"
  assume ok: "view_ok libraryView b"
  show "leaf_hasCurrent libraryLeaf b = (view_current libraryView b \<noteq> None) \<and>
         leaf_getCurrent libraryLeaf b = Some (currentValue (view_current libraryView b)) \<and>
         (\<exists>b'. leaf_next libraryLeaf b = Some (view_upcoming libraryView b \<noteq> [], b') \<and>
               view_ok libraryView b' \<and>
               view_current libraryView b' = headOption (view_upcoming libraryView b) \<and>
               view_upcoming libraryView b' = tl (view_upcoming libraryView b) \<and>
               leaf_hasStarted libraryLeaf b')"
  proof (cases b)
    case (OfArrayList it)
    with ok have o: "arrayListIterator_ok it" by (simp add: libraryView_def)
    obtain r it' where n: "ArrayListIterator_next it = (r, it')" by (cases "ArrayListIterator_next it")
    show ?thesis
    proof (cases it)
      case (ArrayListForwardIterator al idx)
      show ?thesis
        using forward_contract[of al idx] o n OfArrayList ArrayListForwardIterator
        by (simp add: libraryView_def libraryLeaf_def)
    next
      case (ArrayListReverseIterator al idx)
      show ?thesis
        using reverse_contract[of al idx] o n OfArrayList ArrayListReverseIterator
        by (simp add: libraryView_def libraryLeaf_def)
    qed
  next
    case (OfString it)
    with ok have o: "stringIterator_ok it" by (simp add: libraryView_def)
    obtain r it' where n: "StringIterator_next it = (r, it')" by (cases "StringIterator_next it")
    show ?thesis
      using stringIterator_contract[OF o] n OfString
      by (simp add: libraryView_def libraryLeaf_def)
  qed
qed

section \<open>Draining and counting\<close>

lemma toArray_loop_sem:
  assumes C: "leaf_contract L V"
  shows "leaves_ok V (js_iterator js) \<Longrightarrow> \<not> (js_hasInitialValue js \<and> \<not> js_visitedInitialValue js) \<Longrightarrow>
     \<exists>js'. toArray_loop L js acc = Some (acc @ upcoming V (js_iterator js), js')
        \<and> leaves_ok V (js_iterator js') \<and> depth (js_iterator js') = depth (js_iterator js)
        \<and> current V (js_iterator js') = None \<and> upcoming V (js_iterator js') = []"
proof (induction "length (upcoming V (js_iterator js))" arbitrary: js acc rule: less_induct)
  case less
  let ?it = "js_iterator js"
  from cursor_all[OF C less.prems(1)] obtain n where
    nx: "call L Next ?it = Some (Bool (upcoming V ?it \<noteq> []), n)" and an: "advances L V ?it n"
    by (elim cursorE)
  have okn: "leaves_ok V n" using an by (simp add: advances_def)
  from cursor_all[OF C okn] obtain g where
    gc: "call L GetCurrent n = Some (Value (currentValue (current V n)), g)" and kg: "keeps L V n g"
    by (elim cursorE)
  have jn: "JavascriptIterator_next L js
      = Some ((upcoming V ?it = [], currentValue (current V n)), js\<lparr> js_iterator := g \<rparr>)"
    using less.prems(2) nx gc by (auto simp: JavascriptIterator_next_def)
  show ?case
  proof (cases "upcoming V ?it")
    case Nil
    then show ?thesis
      using jn an kg
      by (subst toArray_loop.simps) (auto simp: advances_def keeps_def)
  next
    case (Cons x xs)
    have upg: "upcoming V g = xs" and curn: "current V n = Some x" and okg: "leaves_ok V g"
      and dg: "depth g = depth ?it"
      using an kg Cons by (simp_all add: advances_def keeps_def)
    have "length (upcoming V (js_iterator (js\<lparr> js_iterator := g \<rparr>))) < length (upcoming V ?it)"
      using upg Cons by simp
    from less.hyps[OF this, of "acc @ [x]"] okg less.prems(2) obtain js' where
      r: "toArray_loop L (js\<lparr> js_iterator := g \<rparr>) (acc @ [x]) = Some ((acc @ [x]) @ xs, js')"
      and p: "leaves_ok V (js_iterator js')" "depth (js_iterator js') = depth g"
        "current V (js_iterator js') = None" "upcoming V (js_iterator js') = []"
      using upg by auto
    show ?thesis
      using jn Cons curn r p dg
      by (subst toArray_loop.simps) (auto simp: currentValue_def)
  qed
qed

lemma toArray_sem:
  assumes C: "leaf_contract L V" and ok: "leaves_ok V it"
  shows "\<exists>it'. Iterator_toArray L it = Some (currentList (current V it) @ upcoming V it, it')
        \<and> leaves_ok V it' \<and> depth it' = depth it \<and> current V it' = None \<and> upcoming V it' = []"
proof -
  from cursor_all[OF C ok] obtain h where
    hc: "call L HasCurrent it = Some (Bool (current V it \<noteq> None), h)" and kh: "keeps L V it h"
    by (elim cursorE)
  have okh: "leaves_ok V h" and curh: "current V h = current V it" and uph: "upcoming V h = upcoming V it"
    and dh: "depth h = depth it"
    using kh by (simp_all add: keeps_def)
  let ?js = "\<lparr> js_iterator = h, js_hasInitialValue = (current V it \<noteq> None), js_visitedInitialValue = False \<rparr>"
  have nj: "new_JavascriptIterator L it = Some ?js"
    using hc by (simp add: new_JavascriptIterator_def)
  show ?thesis
  proof (cases "current V it")
    case None
    from toArray_loop_sem[OF C, of ?js "[]"] okh None obtain js' where
      "toArray_loop L ?js [] = Some (upcoming V h, js')"
      "leaves_ok V (js_iterator js')" "depth (js_iterator js') = depth h"
      "current V (js_iterator js') = None" "upcoming V (js_iterator js') = []"
      by auto
    then show ?thesis
      using nj None uph dh by (auto simp: Iterator_toArray_def currentList_def)
  next
    case (Some x)
    from cursor_all[OF C okh] obtain g where
      gc: "call L GetCurrent h = Some (Value (currentValue (current V h)), g)" and kg: "keeps L V h g"
      by (elim cursorE)
    let ?js1 = "\<lparr> js_iterator = g, js_hasInitialValue = True, js_visitedInitialValue = True \<rparr>"
    have jn: "JavascriptIterator_next L ?js = Some ((False, x), ?js1)"
      using Some gc curh by (simp add: JavascriptIterator_next_def currentValue_def)
    have okg: "leaves_ok V g" and upg: "upcoming V g = upcoming V it" and dg: "depth g = depth it"
      using kg uph dh by (simp_all add: keeps_def)
    from toArray_loop_sem[OF C, of ?js1 "[x]"] okg obtain js' where
      r: "toArray_loop L ?js1 [x] = Some ([x] @ upcoming V g, js')"
      and p: "leaves_ok V (js_iterator js')" "depth (js_iterator js') = depth g"
        "current V (js_iterator js') = None" "upcoming V (js_iterator js') = []"
      by auto
    have "toArray_loop L ?js [] = Some ([x] @ upcoming V g, js')"
      using jn r by (subst toArray_loop.simps) simp
    then show ?thesis
      using nj Some upg dg p by (auto simp: Iterator_toArray_def currentList_def)
  qed
qed

lemma fresh_props:
  "fresh L V it \<Longrightarrow> leaves_ok V it \<and> current V it = None \<and> \<not> Iterator_hasStarted L it"
  by (induction it) (auto simp: canTakeValue_def split: option.splits)

lemma take_drain_loop:
  assumes C: "leaf_contract L V"
  shows "leaves_ok V i \<Longrightarrow> taken \<le> n \<Longrightarrow> nat (n - taken) < length (upcoming V i)
    \<Longrightarrow> \<not> (js_hasInitialValue js \<and> \<not> js_visitedInitialValue js)
    \<Longrightarrow> js_iterator js = TakeIterator i (Some n) taken
    \<Longrightarrow> \<exists>js' i'. toArray_loop L js acc = Some (acc @ take (nat (n - taken)) (upcoming V i), js')
          \<and> js_iterator js' = TakeIterator i' (Some n) (n + 1) \<and> leaves_ok V i'
          \<and> current V i' = Some (upcoming V i ! nat (n - taken))
          \<and> upcoming V i' = drop (Suc (nat (n - taken))) (upcoming V i)"
proof (induction "nat (n - taken)" arbitrary: i taken js acc)
  case 0
  then have tn: "taken = n" by simp
  from 0 obtain x xs where up: "upcoming V i = x # xs" by (cases "upcoming V i") auto
  from cursor_all[OF C 0(2)] obtain i3 where
    nx: "call L Next i = Some (Bool (upcoming V i \<noteq> []), i3)" and a3: "advances L V i i3"
    by (elim cursorE)
  have ok3: "leaves_ok V i3" using a3 by (simp add: advances_def)
  from cursor_all[OF C ok3] obtain i3h where
    h3: "call L HasCurrent i3 = Some (Bool (current V i3 \<noteq> None), i3h)" and k3h: "keeps L V i3 i3h"
    by (elim cursorE)
  have ok3h: "leaves_ok V i3h" using k3h by (simp add: keeps_def)
  from cursor_all[OF C ok3h] obtain i4 where
    h4: "call L HasCurrent i3h = Some (Bool (current V i3h \<noteq> None), i4)" and k4: "keeps L V i3h i4"
    by (elim cursorE)
  have n1: "call L Next (TakeIterator i (Some n) taken) = Some (Bool False, TakeIterator i3h (Some n) (n + 1))"
    using tn nx h3 by (subst call_Take) (simp add: TakeIterator_methods_def canTakeValue_def)
  have g1: "call L GetCurrent (TakeIterator i3h (Some n) (n + 1)) = Some (Value None, TakeIterator i4 (Some n) (n + 1))"
    using h4 by (subst call_Take) (simp add: TakeIterator_methods_def canTakeValue_def)
  have jn: "JavascriptIterator_next L js = Some ((True, None), js\<lparr> js_iterator := TakeIterator i4 (Some n) (n + 1) \<rparr>)"
    using 0(5,6) n1 g1 by (auto simp: JavascriptIterator_next_def)
  have "current V i4 = Some x" "upcoming V i4 = xs" "leaves_ok V i4"
    using a3 k3h k4 up by (simp_all add: advances_def keeps_def)
  then show ?case
    using jn tn up by (subst toArray_loop.simps) auto
next
  case (Suc k)
  then have tn: "taken < n" and k: "k = nat (n - (taken + 1))" by auto
  from Suc.prems obtain x xs where up: "upcoming V i = x # xs" by (cases "upcoming V i") auto
  from cursor_all[OF C Suc.prems(1)] obtain i3 where
    nx: "call L Next i = Some (Bool (upcoming V i \<noteq> []), i3)" and a3: "advances L V i i3"
    by (elim cursorE)
  have ok3: "leaves_ok V i3" using a3 by (simp add: advances_def)
  from cursor_all[OF C ok3] obtain i3h where
    h3: "call L HasCurrent i3 = Some (Bool (current V i3 \<noteq> None), i3h)" and k3h: "keeps L V i3 i3h"
    by (elim cursorE)
  have ok3h: "leaves_ok V i3h" using k3h by (simp add: keeps_def)
  from cursor_all[OF C ok3h] obtain i4 where
    h4: "call L HasCurrent i3h = Some (Bool (current V i3h \<noteq> None), i4)" and k4: "keeps L V i3h i4"
    by (elim cursorE)
  have ok4: "leaves_ok V i4" using k4 by (simp add: keeps_def)
  from cursor_all[OF C ok4] obtain i5 where
    g5: "call L GetCurrent i4 = Some (Value (currentValue (current V i4)), i5)" and k5: "keeps L V i4 i5"
    by (elim cursorE)
  have cur: "current V i3 = Some x" "current V i3h = Some x" "current V i4 = Some x"
    and up5: "upcoming V i5 = xs" and ok5: "leaves_ok V i5"
    using a3 k3h k4 k5 up by (simp_all add: advances_def keeps_def)
  have n1: "call L Next (TakeIterator i (Some n) taken) = Some (Bool True, TakeIterator i3h (Some n) (taken + 1))"
    using tn nx h3 cur by (subst call_Take) (simp add: TakeIterator_methods_def canTakeValue_def)
  have g1: "call L GetCurrent (TakeIterator i3h (Some n) (taken + 1)) = Some (Value x, TakeIterator i5 (Some n) (taken + 1))"
    using tn h4 g5 cur by (subst call_Take) (simp add: TakeIterator_methods_def canTakeValue_def currentValue_def)
  let ?js1 = "js\<lparr> js_iterator := TakeIterator i5 (Some n) (taken + 1) \<rparr>"
  have jn: "JavascriptIterator_next L js = Some ((False, x), ?js1)"
    using Suc.prems(4,5) n1 g1 by (auto simp: JavascriptIterator_next_def)
  have len: "nat (n - (taken + 1)) < length (upcoming V i5)"
    using Suc.prems(3) up up5 tn by auto
  from Suc.hyps(1)[OF k ok5 _ len, of ?js1 "acc @ [x]"] tn Suc.prems(4) obtain js' i' where
    r: "toArray_loop L ?js1 (acc @ [x]) = Some ((acc @ [x]) @ take (nat (n - (taken + 1))) (upcoming V i5), js')"
    and p: "js_iterator js' = TakeIterator i' (Some n) (n + 1)" "leaves_ok V i'"
      "current V i' = Some (upcoming V i5 ! nat (n - (taken + 1)))"
      "upcoming V i' = drop (Suc (nat (n - (taken + 1)))) (upcoming V i5)"
    by auto
  have eq: "nat (n - taken) = Suc (nat (n - (taken + 1)))" using tn by simp
  show ?case
    using jn r p up up5 unfolding eq
    by (subst toArray_loop.simps) auto
qed

lemma fresh_forward: "fresh libraryLeaf libraryView (Leaf (OfArrayList (ArrayList_iterate al)))"
  by (simp add: libraryLeaf_def libraryView_def ArrayList_iterate_def isDefined_def)


section \<open>The Lexer is a cursor over its lexes\<close>

lemma at_next: "0 \<le> i \<Longrightarrow> i < int (length cs) \<Longrightarrow>
   StringIterator_next (at cs s i) = (i + 1 < int (length cs), at cs s (i + 1))"
  by (simp add: StringIterator_next_def at_def StringIterator_hasMore_def)

lemma at_next_end: "i \<ge> int (length cs) \<Longrightarrow>
   StringIterator_next (at cs s i) = (False, at cs s i)"
  by (simp add: StringIterator_next_def at_def StringIterator_hasMore_def)

lemma at_getCurrent: "0 \<le> i \<Longrightarrow> i < int (length cs) \<Longrightarrow>
   StringIterator_getCurrent (at cs s i) = Some (Some (cs ! nat i))"
  by (simp add: StringIterator_getCurrent_def at_def StringIterator_hasCurrent_def
      StringIterator_hasStarted_def StringIterator_hasMore_def stringIndex_def)

lemma jsPlus_String [simp]: "jsPlus (String a) (String b) = String (a @ b)"
  by (simp add: jsPlus_def showJsString_def)

lemma readWhile_loop_at:
  "0 \<le> i \<Longrightarrow> i < int (length cs) \<Longrightarrow>
   readWhile_loop condition (String acc) (at cs s i)
     = Some (String (acc @ takeWhile (\<lambda>ch. condition (Some ch)) (drop (nat i + 1) cs)),
             at cs s (i + 1 + int (length (takeWhile (\<lambda>ch. condition (Some ch)) (drop (nat i + 1) cs)))))"
proof (induction "nat (int (length cs) - i)" arbitrary: i acc)
  case 0
  then show ?case by simp
next
  case (Suc k)
  show ?case
  proof (cases "i + 1 < int (length cs)")
    case False
    then have "drop (nat i + 1) cs = []" using Suc.prems by auto
    then show ?thesis
      using False Suc.prems
      by (subst readWhile_loop.simps) (simp add: at_next)
  next
    case True
    have ni: "nat (i + 1) = Suc (nat i)" using Suc.prems by simp
    have d: "drop (Suc (nat i)) cs = cs ! Suc (nat i) # drop (Suc (Suc (nat i))) cs"
      using True Suc.prems by (simp add: Cons_nth_drop_Suc)
    have g: "StringIterator_getCurrent (at cs s (i + 1)) = Some (Some (cs ! Suc (nat i)))"
      using True Suc.prems by (simp add: at_getCurrent ni)
    show ?thesis
    proof (cases "condition (Some (cs ! Suc (nat i)))")
      case False
      then show ?thesis
        using True Suc.prems g d
        by (subst readWhile_loop.simps) (simp add: at_next)
    next
      case c: True
      have k: "k = nat (int (length cs) - (i + 1))" using Suc.hyps(2) by simp
      have ih: "readWhile_loop condition (String (acc @ [cs ! Suc (nat i)])) (at cs s (i + 1))
        = Some (String ((acc @ [cs ! Suc (nat i)]) @ takeWhile (\<lambda>ch. condition (Some ch)) (drop (Suc (Suc (nat i))) cs)),
             at cs s (i + 1 + 1 + int (length (takeWhile (\<lambda>ch. condition (Some ch)) (drop (Suc (Suc (nat i))) cs)))))"
        using Suc.hyps(1)[OF k, of "acc @ [cs ! Suc (nat i)]"] True Suc.prems by (simp add: ni)
      show ?thesis
        using True Suc.prems g c ih
        by (subst readWhile_loop.simps) (simp add: at_next d charString_def ac_simps)
    qed
  qed
qed
lemma singleCharacterCase_lex:
  "singleCharacterCase ch = Some f \<Longrightarrow>
     lex_text (f i) = String [ch] \<and> lex_startIndex (f i) = i \<and> lex_type (f i) \<noteq> LexType_Unrecognized"
  unfolding singleCharacterCase_def
  by (simp split: if_splits add: new_Lex_def
      LeftCurlyBracket_def RightCurlyBracket_def LeftSquareBracket_def RightSquareBracket_def
      LeftAngleBracket_def RightAngleBracket_def LeftParenthesis_def RightParenthesis_def
      SingleQuote_def DoubleQuote_def Comma_def Colon_def Semicolon_def ExclamationPoint_def
      Backslash_def ForwardSlash_def QuestionMark_def Dash_def Plus_def EqualsSign_def Period_def
      Underscore_def Ampersand_def VerticalBar_def Space_def Tab_def NewLine_def Asterisk_def
      Percent_def Hash_def)

lemma at_currentIndex: "0 \<le> i \<Longrightarrow> i < int (length cs) \<Longrightarrow>
   StringIterator_currentIndex (at cs s i) = Some i"
  by (simp add: StringIterator_currentIndex_def at_def StringIterator_hasCurrent_def
      StringIterator_hasStarted_def StringIterator_hasMore_def)

lemma at_currentIndex_end: "i \<ge> int (length cs) \<Longrightarrow>
   StringIterator_currentIndex (at cs s i) = None"
  by (simp add: StringIterator_currentIndex_def at_def StringIterator_hasCurrent_def
      StringIterator_hasStarted_def StringIterator_hasMore_def)

lemma at_started [simp]: "StringIterator_hasStarted (at cs s i)"
  by (simp add: StringIterator_hasStarted_def at_def)

lemma readWhile_at:
  assumes "0 \<le> i" "i < int (length cs)"
  shows "readWhile (at cs s i) condition
     = Some (String (cs ! nat i # takeWhile (\<lambda>ch. condition (Some ch)) (drop (nat i + 1) cs)),
             at cs s (i + 1 + int (length (takeWhile (\<lambda>ch. condition (Some ch)) (drop (nat i + 1) cs)))))"
  using assms readWhile_loop_at[OF assms, of condition "[cs ! nat i]" s]
  by (simp add: readWhile_def at_getCurrent charString_def)

lemma take_run:
  "i < length cs \<Longrightarrow> cs ! i # takeWhile P (drop (Suc i) cs)
     = take (Suc (length (takeWhile P (drop (Suc i) cs)))) (drop i cs)"
  by (metis Cons_nth_drop_Suc take_Suc_Cons takeWhile_eq_take)

lemma lexer_next_end:
  "i \<ge> int (length cs) \<Longrightarrow>
   Lexer_next (lexerAt cs s i off cur) = Some (False, lexerAt cs s i off None)"
  by (simp add: Lexer_next_def lexerAt_def Lexer_hasStarted_def Lexer_getCurrentCharacterStartIndex_def
      at_currentIndex_end Lexer_hasCurrent_def isDefined_def)

lemma lexer_next_at:
  assumes i: "0 \<le> i" "i < int (length cs)"
  shows "\<exists>j lex. Lexer_next (lexerAt cs s i off cur) = Some (True, lexerAt cs s j off (Some lex))
      \<and> i < j \<and> j \<le> int (length cs)
      \<and> lex_text lex = String (take (nat (j - i)) (drop (nat i) cs))
      \<and> lex_startIndex lex = i + off
      \<and> (lex_type lex = LexType_Unrecognized \<longrightarrow> j = i + 1)"
proof -
  let ?c = "cs ! nat i"
  have one: "take (nat (i + 1 - i)) (drop (nat i) cs) = [?c]"
    using i by (simp add: take_Suc_conv_app_nth hd_drop_conv_nth take_Suc)
  have start: "Lexer_getCurrentCharacterStartIndex (lexerAt cs s i off cur) = Some (i + off)"
    using i by (simp add: Lexer_getCurrentCharacterStartIndex_def lexerAt_def at_currentIndex)
  have cc: "Lexer_getCurrentCharacter (lexerAt cs s i off cur) = Some (Some ?c)"
    using i by (simp add: Lexer_getCurrentCharacter_def lexerAt_def at_getCurrent)
  have nc: "Lexer_nextCharacter (lexerAt cs s i off x) = (i + 1 < int (length cs), lexerAt cs s (i + 1) off x)" for x
    using i by (simp add: Lexer_nextCharacter_def lexerAt_def at_next)
  have upd: "(lexerAt cs s k off cur)\<lparr> lx_currentLex := y \<rparr> = lexerAt cs s k off y" for y k
    by (simp add: lexerAt_def)
  have iter: "lx_iterator (lexerAt cs s i off cur) = at cs s i"
    by (simp add: lexerAt_def)
  have upd2: "(lexerAt cs s i off cur)\<lparr> lx_iterator := at cs s k, lx_currentLex := y \<rparr> = lexerAt cs s k off y" for y k
    by (simp add: lexerAt_def)
  have hc: "Lexer_hasCurrent (lexerAt cs s k off (Some y))" for k y
    by (simp add: Lexer_hasCurrent_def lexerAt_def isDefined_def)
  have st: "Lexer_hasStarted (lexerAt cs s i off cur)"
    by (simp add: Lexer_hasStarted_def lexerAt_def)
  have stepI: "?thesis"
    if "Lexer_next (lexerAt cs s i off cur) = Some (True, lexerAt cs s j off (Some lex))"
      "i < j" "j \<le> int (length cs)"
      "lex_text lex = String (take (nat (j - i)) (drop (nat i) cs))"
      "lex_startIndex lex = i + off"
      "lex_type lex = LexType_Unrecognized \<longrightarrow> j = i + 1" for j lex
    using that by blast
  have ni: "nat (i + 1) = Suc (nat i)" "nat i < length cs" using i by auto
  show ?thesis
  proof (cases "singleCharacterCase ?c")
    case (Some f)
    have "Lexer_next (lexerAt cs s i off cur) = Some (True, lexerAt cs s (i + 1) off (Some (f (i + off))))"
      using Some by (simp add: Lexer_next_def st start cc upd nc hc)
    then show ?thesis
      by (rule stepI) (use singleCharacterCase_lex[OF Some, of "i + off"] i one in \<open>auto\<close>)
  next
    case None
    note sc = None
    show ?thesis
    proof (cases "?c = CHR 0x0D")
      case True
      note cr = True
      show ?thesis
      proof (cases "i + 1 < int (length cs)")
        case False
        have "Lexer_next (lexerAt cs s i off cur)
            = Some (True, lexerAt cs s (i + 1) off (Some (CarriageReturn (i + off))))"
          using sc cr False by (simp add: Lexer_next_def st start cc nc hc upd)
        then show ?thesis
          by (rule stepI) (use i one cr in \<open>auto simp: CarriageReturn_def new_Lex_def\<close>)
      next
        case True
        note more = True
        have cc1: "Lexer_getCurrentCharacter (lexerAt cs s (i + 1) off cur) = Some (Some (cs ! Suc (nat i)))"
          using i more by (simp add: Lexer_getCurrentCharacter_def lexerAt_def at_getCurrent ni)
        have nc1: "Lexer_nextCharacter (lexerAt cs s (i + 1) off x)
             = (i + 2 < int (length cs), lexerAt cs s (i + 2) off x)" for x
          proof -
          have "i + 1 + 1 = i + 2" by simp
          then show ?thesis
            using i more at_next[of "i + 1" cs s]
            by (simp add: Lexer_nextCharacter_def lexerAt_def) (simp add: add.commute[of 2 i])
        qed
        have upd1: "(lexerAt cs s k off cur)\<lparr> lx_currentLex := y \<rparr> = lexerAt cs s k off y" for y k
          by (simp add: lexerAt_def)
        show ?thesis
        proof (cases "cs ! Suc (nat i) = CHR 0x0A")
          case False
          have "Lexer_next (lexerAt cs s i off cur)
              = Some (True, lexerAt cs s (i + 1) off (Some (CarriageReturn (i + off))))"
            using sc cr more False by (simp add: Lexer_next_def st start cc nc hc cc1 upd1)
          then show ?thesis
            by (rule stepI) (use i one cr in \<open>auto simp: CarriageReturn_def new_Lex_def\<close>)
        next
          case True
          have two: "take (nat (i + 2 - i)) (drop (nat i) cs) = [CHR 0x0D, CHR 0x0A]"
          proof -
            have "Suc (nat i) < length cs" using i more by auto
            then have "drop (nat i) cs = cs ! nat i # cs ! Suc (nat i) # drop (Suc (Suc (nat i))) cs"
              using ni(2) by (simp add: Cons_nth_drop_Suc)
            moreover have "nat (i + 2 - i) = Suc (Suc 0)" by simp
            ultimately show ?thesis using cr True by simp
          qed
          have "Lexer_next (lexerAt cs s i off cur)
              = Some (True, lexerAt cs s (i + 2) off (Some (CarriageReturnNewLine (i + off))))"
            using sc cr more True by (simp add: Lexer_next_def st start cc nc hc cc1 upd1 nc1)
          then show ?thesis
            by (rule stepI) (use i more two in \<open>auto simp: CarriageReturnNewLine_def new_Lex_def\<close>)
        qed
      qed
    next
      case False
      note ncr = False
      let ?run = "\<lambda>P. takeWhile (\<lambda>ch. P (Some ch)) (drop (Suc (nat i)) cs)"
      have run_le: "i + 1 + int (length (?run P)) \<le> int (length cs)" for P
      proof -
        have "length (?run P) \<le> length (drop (Suc (nat i)) cs)" by (rule length_takeWhile_le)
        then show ?thesis using i by simp
      qed
      have run_text: "?c # ?run P = take (nat (i + 1 + int (length (?run P)) - i)) (drop (nat i) cs)" for P
        using take_run[OF ni(2), of "\<lambda>ch. P (Some ch)"] by (simp add: nat_add_distrib)
      show ?thesis
      proof (cases "isLetter (Some ?c)")
        case True
        have "Lexer_next (lexerAt cs s i off cur)
            = Some (True, lexerAt cs s (i + 1 + int (length (?run isLetter))) off
                 (Some (Letters (String (?c # ?run isLetter)) (i + off))))"
          using sc ncr True i
          by (simp add: Lexer_next_def st start cc hc readLetters_def iter upd2 readWhile_at)
        then show ?thesis
          by (rule stepI) (use i run_le[of isLetter] run_text[of isLetter] in \<open>auto simp: Letters_def new_Lex_def\<close>)
      next
        case False
        note nl = False
        show ?thesis
        proof (cases "isDigit (Some ?c)")
          case True
          have "Lexer_next (lexerAt cs s i off cur)
              = Some (True, lexerAt cs s (i + 1 + int (length (?run isDigit))) off
                   (Some (Digits (String (?c # ?run isDigit)) (i + off))))"
            using sc ncr nl True i
            by (simp add: Lexer_next_def st start cc hc readDigits_def iter upd2 readWhile_at)
          then show ?thesis
            by (rule stepI) (use i run_le[of isDigit] run_text[of isDigit] in \<open>auto simp: Digits_def new_Lex_def\<close>)
        next
          case False
          have "Lexer_next (lexerAt cs s i off cur)
              = Some (True, lexerAt cs s (i + 1) off (Some (Unrecognized (String [?c]) (i + off))))"
            using sc ncr nl False by (simp add: Lexer_next_def st start cc nc hc upd charString_def)
          then show ?thesis
            by (rule stepI) (use i one in \<open>auto simp: Unrecognized_def new_Lex_def\<close>)
        qed
      qed
    qed
  qed
qed
lemma lexerAt_ok: "0 \<le> i \<Longrightarrow> i \<le> int (length cs) \<Longrightarrow> lexer_ok (lexerAt cs s i off cur)"
  by (simp add: lexer_ok_def lexerAt_def at_def getLength_def)

lemma lexerAt_remaining: "lexer_remaining (lexerAt cs s i off cur) = nat (int (length cs) - i)"
  by (simp add: lexer_remaining_def lexerAt_def at_def)

lemma lexerAt_started: "Lexer_hasStarted (lexerAt cs s i off cur)"
  by (simp add: Lexer_hasStarted_def lexerAt_def)

lemma lexerAt_currentLex: "lx_currentLex (lexerAt cs s i off cur) = cur"
  by (simp add: lexerAt_def)

lemma Lexer_next_present:
  assumes "lexer_ok l" "si_text (lx_iterator l) = Some cs"
  shows "Lexer_next l = Lexer_next (lexerAt cs (si_startIndex (lx_iterator l))
            (si_currentIndex (lx_iterator l)) (lx_characterStartIndexOffset l) (lx_currentLex l))"
proof -
  let ?a = "lexerAt cs (si_startIndex (lx_iterator l))
            (si_currentIndex (lx_iterator l)) (lx_characterStartIndexOffset l) (lx_currentLex l)"
  have "(if \<not> Lexer_hasStarted l then snd (Lexer_nextCharacter l) else l) = ?a"
    using assms
    by (simp add: lexer_ok_def Lexer_hasStarted_def StringIterator_hasStarted_def
        Lexer_nextCharacter_def StringIterator_next_def lexerAt_def at_def getLength_def Let_def)
  then show ?thesis
    by (simp add: Lexer_next_def[of l] Lexer_next_def[of ?a] lexerAt_started)
qed

lemma Lexer_next_absent:
  assumes "lexer_ok l" "si_text (lx_iterator l) = None"
  shows "\<exists>l'. Lexer_next l = Some (False, l') \<and> lexer_ok l' \<and> Lexer_hasStarted l'
     \<and> lx_currentLex l' = None \<and> lexer_remaining l' = 0 \<and> lexer_remaining l = 0"
  using assms
  by (simp add: Lexer_next_def lexer_ok_def Lexer_hasStarted_def StringIterator_hasStarted_def
      Lexer_nextCharacter_def StringIterator_next_def getLength_def Let_def
      Lexer_getCurrentCharacterStartIndex_def StringIterator_currentIndex_def
      StringIterator_hasCurrent_def StringIterator_hasMore_def Lexer_hasCurrent_def isDefined_def
      lexer_remaining_def)

lemma lexer_step:
  assumes ok: "lexer_ok l"
  shows "\<exists>b l'. Lexer_next l = Some (b, l') \<and> lexer_ok l' \<and> Lexer_hasStarted l'
      \<and> b = (lx_currentLex l' \<noteq> None) \<and> b = (0 < lexer_remaining l)
      \<and> (b \<longrightarrow> lexer_remaining l' < lexer_remaining l)
      \<and> (\<not> b \<longrightarrow> lexer_remaining l' = 0)"
proof (cases "si_text (lx_iterator l)")
  case None
  from Lexer_next_absent[OF ok None] show ?thesis by auto
next
  case (Some cs)
  let ?i = "si_currentIndex (lx_iterator l)"
  let ?s = "si_startIndex (lx_iterator l)"
  let ?off = "lx_characterStartIndexOffset l"
  have i: "0 \<le> ?i" "?i \<le> int (length cs)" and r: "lexer_remaining l = nat (int (length cs) - ?i)"
    using ok Some by (simp_all add: lexer_ok_def getLength_def lexer_remaining_def)
  note e = Lexer_next_present[OF ok Some]
  show ?thesis
  proof (cases "?i < int (length cs)")
    case True
    from lexer_next_at[OF i(1) True, of ?s ?off "lx_currentLex l"] obtain j lex where
      n: "Lexer_next l = Some (True, lexerAt cs ?s j ?off (Some lex))" and j: "?i < j" "j \<le> int (length cs)"
      unfolding e by blast
    show ?thesis
      using n j i True r
      by (intro exI[of _ True] exI[of _ "lexerAt cs ?s j ?off (Some lex)"])
         (simp add: lexerAt_ok lexerAt_started lexerAt_remaining lexerAt_currentLex)
  next
    case False
    then have "Lexer_next l = Some (False, lexerAt cs ?s ?i ?off None)"
      unfolding e by (simp add: lexer_next_end)
    then show ?thesis
      using i False r
      by (intro exI[of _ False] exI[of _ "lexerAt cs ?s ?i ?off None"])
         (simp add: lexerAt_ok lexerAt_started lexerAt_remaining lexerAt_currentLex)
  qed
qed

lemma lexerRun_fuel:
  "lexer_ok l \<Longrightarrow> lexer_remaining l < n \<Longrightarrow> lexerRun n l = lexerRun (Suc (lexer_remaining l)) l"
proof (induction "lexer_remaining l" arbitrary: l n rule: less_induct)
  case less
  from lexer_step[OF less.prems(1)] obtain b l' where
    n: "Lexer_next l = Some (b, l')" and ok': "lexer_ok l'"
    and b: "b \<longrightarrow> lexer_remaining l' < lexer_remaining l"
    by (elim exE conjE)
  obtain m where m: "n = Suc m" using less.prems(2) by (cases n) auto
  show ?case
  proof (cases b)
    case False
    then show ?thesis using n m by simp
  next
    case True
    then have lt: "lexer_remaining l' < lexer_remaining l" using b by simp
    have "lexerRun m l' = lexerRun (Suc (lexer_remaining l')) l'"
      using less.hyps[OF lt ok', of m] lt less.prems(2) m by simp
    moreover have "lexerRun (lexer_remaining l) l' = lexerRun (Suc (lexer_remaining l')) l'"
      using less.hyps[OF lt ok', of "lexer_remaining l"] lt by simp
    ultimately show ?thesis using n m True by simp
  qed
qed

lemma lexerLeaf_contract: "leaf_contract lexerLeaf lexerView"
  unfolding leaf_contract_def
proof (intro allI impI)
  fix l assume "view_ok lexerView l"
  then have ok: "lexer_ok l" by (simp add: lexerView_def)
  from lexer_step[OF ok] obtain b l' where
    n: "Lexer_next l = Some (b, l')" and ok': "lexer_ok l'" and st: "Lexer_hasStarted l'"
    and bc: "b = (lx_currentLex l' \<noteq> None)" and br: "b = (0 < lexer_remaining l)"
    and b: "b \<longrightarrow> lexer_remaining l' < lexer_remaining l"
    and nb: "\<not> b \<longrightarrow> lexer_remaining l' = 0"
    by (elim exE conjE)
  have up: "view_upcoming lexerView l = (if b then lx_currentLex l' # view_upcoming lexerView l' else [])"
    using n b lexerRun_fuel[OF ok', of "lexer_remaining l"] by (simp add: lexerView_def)
  have up': "\<not> b \<Longrightarrow> view_upcoming lexerView l' = []"
  proof -
    assume nb': "\<not> b"
    from lexer_step[OF ok'] nb nb' obtain l'' where "Lexer_next l' = Some (False, l'')" by auto
    then show ?thesis using nb nb' by (simp add: lexerView_def)
  qed
  show "leaf_hasCurrent lexerLeaf l = (view_current lexerView l \<noteq> None)
      \<and> leaf_getCurrent lexerLeaf l = Some (currentValue (view_current lexerView l))
      \<and> (\<exists>b'. leaf_next lexerLeaf l = Some (view_upcoming lexerView l \<noteq> [], b')
              \<and> view_ok lexerView b'
              \<and> view_current lexerView b' = headOption (view_upcoming lexerView l)
              \<and> view_upcoming lexerView b' = tl (view_upcoming lexerView l)
              \<and> leaf_hasStarted lexerLeaf b')"
  proof (intro conjI)
    show "leaf_hasCurrent lexerLeaf l = (view_current lexerView l \<noteq> None)"
      by (simp add: lexerLeaf_def lexerView_def Lexer_hasCurrent_def isDefined_def)
    show "leaf_getCurrent lexerLeaf l = Some (currentValue (view_current lexerView l))"
      by (simp add: lexerLeaf_def lexerView_def Lexer_getCurrent_def currentValue_def split: option.splits)
    show "\<exists>b'. leaf_next lexerLeaf l = Some (view_upcoming lexerView l \<noteq> [], b')
              \<and> view_ok lexerView b'
              \<and> view_current lexerView b' = headOption (view_upcoming lexerView l)
              \<and> view_upcoming lexerView b' = tl (view_upcoming lexerView l)
              \<and> leaf_hasStarted lexerLeaf b'"
    proof (intro exI[of _ l'] conjI)
      show "leaf_next lexerLeaf l = Some (view_upcoming lexerView l \<noteq> [], l')"
        using n up by (simp add: lexerLeaf_def)
      show "view_ok lexerView l'" using ok' by (simp add: lexerView_def)
      show "view_current lexerView l' = headOption (view_upcoming lexerView l)"
        unfolding up using bc by (auto simp: lexerView_def headOption_def)
      show "view_upcoming lexerView l' = tl (view_upcoming lexerView l)"
        unfolding up using up' by auto
      show "leaf_hasStarted lexerLeaf l'" using st by (simp add: lexerLeaf_def)
    qed
  qed
qed

lemma lexer_next_at_CR:
  assumes i: "0 \<le> i" "i < int (length cs)" and cr: "cs ! nat i = CHR 0x0D"
  shows "Lexer_next (lexerAt cs s i off cur) =
     (if i + 1 < int (length cs) \<and> cs ! nat (i + 1) = CHR 0x0A
      then Some (True, lexerAt cs s (i + 2) off (Some (new_Lex (String [CHR 0x0D, CHR 0x0A]) (i + off) LexType_NewLine)))
      else Some (True, lexerAt cs s (i + 1) off (Some (new_Lex (String [CHR 0x0D]) (i + off) LexType_CarriageReturn))))"
proof -
  let ?c = "cs ! nat i"
  have start: "Lexer_getCurrentCharacterStartIndex (lexerAt cs s i off cur) = Some (i + off)"
    using i by (simp add: Lexer_getCurrentCharacterStartIndex_def lexerAt_def at_currentIndex)
  have cc: "Lexer_getCurrentCharacter (lexerAt cs s i off cur) = Some (Some ?c)"
    using i by (simp add: Lexer_getCurrentCharacter_def lexerAt_def at_getCurrent)
  have nc: "Lexer_nextCharacter (lexerAt cs s i off x) = (i + 1 < int (length cs), lexerAt cs s (i + 1) off x)" for x
    using i by (simp add: Lexer_nextCharacter_def lexerAt_def at_next)
  have upd: "(lexerAt cs s k off cur)\<lparr> lx_currentLex := y \<rparr> = lexerAt cs s k off y" for y k
    by (simp add: lexerAt_def)
  have hc: "Lexer_hasCurrent (lexerAt cs s k off (Some y))" for k y
    by (simp add: Lexer_hasCurrent_def lexerAt_def isDefined_def)
  have st: "Lexer_hasStarted (lexerAt cs s i off cur)"
    by (simp add: Lexer_hasStarted_def lexerAt_def)
  have sc: "singleCharacterCase ?c = None"
    by (simp add: cr singleCharacterCase_def)
  have ni: "nat (i + 1) = Suc (nat i)" using i by auto
  show ?thesis
  proof (cases "i + 1 < int (length cs)")
    case False
    then show ?thesis
      using sc cr by (simp add: Lexer_next_def st start cc nc hc upd CarriageReturn_def)
  next
    case True
    note more = True
    have cc1: "Lexer_getCurrentCharacter (lexerAt cs s (i + 1) off cur) = Some (Some (cs ! Suc (nat i)))"
      using i more by (simp add: Lexer_getCurrentCharacter_def lexerAt_def at_getCurrent ni)
    have nc1: "Lexer_nextCharacter (lexerAt cs s (i + 1) off x)
         = (i + 2 < int (length cs), lexerAt cs s (i + 2) off x)" for x
      using i more at_next[of "i + 1" cs s]
      by (simp add: Lexer_nextCharacter_def lexerAt_def) (simp add: add.commute[of 2 i])
    show ?thesis
      using sc cr more
      by (simp add: Lexer_next_def st start cc nc hc cc1 upd nc1 ni CarriageReturn_def
          CarriageReturnNewLine_def)
  qed
qed

lemma lexerRun_at:
  "0 \<le> i \<Longrightarrow> i \<le> int (length cs) \<Longrightarrow>
   \<exists>lexes. lexerRun (Suc (nat (int (length cs) - i))) (lexerAt cs s i off cur) = map Some lexes
     \<and> (\<forall>acc. getCombinedText_loop (String acc) (map Some lexes) = Some (String (acc @ drop (nat i) cs)))
     \<and> (\<forall>l \<in> set lexes. \<exists>ts. lex_text l = String ts \<and> ts \<noteq> []
            \<and> (lex_type l = LexType_Unrecognized \<longrightarrow> length ts = 1))
     \<and> (lexes = [] \<longleftrightarrow> i = int (length cs))"
proof (induction "nat (int (length cs) - i)" arbitrary: i cur rule: less_induct)
  case less
  show ?case
  proof (cases "i < int (length cs)")
    case False
    then have e: "i = int (length cs)" using less.prems by simp
    have "lexerRun (Suc (nat (int (length cs) - i))) (lexerAt cs s i off cur) = map Some []"
      using e by (simp add: lexer_next_end)
    then show ?thesis using e by (intro exI[of _ "[]"]) simp
  next
    case True
    from lexer_next_at[OF less.prems(1) True, of s off cur] obtain j lex where
      n: "Lexer_next (lexerAt cs s i off cur) = Some (True, lexerAt cs s j off (Some lex))"
      and j: "i < j" "j \<le> int (length cs)"
      and t: "lex_text lex = String (take (nat (j - i)) (drop (nat i) cs))"
      and u: "lex_type lex = LexType_Unrecognized \<longrightarrow> j = i + 1"
      by blast
    have j0: "0 \<le> j" using j less.prems by simp
    have lt: "nat (int (length cs) - j) < nat (int (length cs) - i)" using j by auto
    from less.hyps[OF lt j0 j(2), of "Some lex"] obtain rest where
      r: "lexerRun (Suc (nat (int (length cs) - j))) (lexerAt cs s j off (Some lex)) = map Some rest"
      and rc: "\<And>acc. getCombinedText_loop (String acc) (map Some rest) = Some (String (acc @ drop (nat j) cs))"
      and rs: "\<forall>l \<in> set rest. \<exists>ts. lex_text l = String ts \<and> ts \<noteq> []
            \<and> (lex_type l = LexType_Unrecognized \<longrightarrow> length ts = 1)"
      by blast
    have fuel: "lexerRun (nat (int (length cs) - i)) (lexerAt cs s j off (Some lex)) = map Some rest"
      using lexerRun_fuel[OF lexerAt_ok[OF j0 j(2)], where n = "nat (int (length cs) - i)" and s1 = s
          and off1 = off and cur1 = "Some lex"] lt r
      by (simp add: lexerAt_remaining)
    have run: "lexerRun (Suc (nat (int (length cs) - i))) (lexerAt cs s i off cur) = map Some (lex # rest)"
      using n fuel by (simp add: lexerAt_currentLex)
    have len: "length (take (nat (j - i)) (drop (nat i) cs)) = nat (j - i)"
      using j less.prems by simp
    have split: "take (nat (j - i)) (drop (nat i) cs) @ drop (nat j) cs = drop (nat i) cs"
    proof -
      have "nat j = nat (j - i) + nat i" using j less.prems by simp
      then have "drop (nat j) cs = drop (nat (j - i)) (drop (nat i) cs)" by simp
      then show ?thesis by (simp only: append_take_drop_id)
    qed
    have comb: "getCombinedText_loop (String acc) (map Some (lex # rest)) = Some (String (acc @ drop (nat i) cs))" for acc
      using rc[of "acc @ take (nat (j - i)) (drop (nat i) cs)"] split
      by (simp add: Lex_toString_def t)
    have one: "\<exists>ts. lex_text lex = String ts \<and> ts \<noteq> []
            \<and> (lex_type lex = LexType_Unrecognized \<longrightarrow> length ts = 1)"
      using t u j less.prems len by (intro exI[of _ "take (nat (j - i)) (drop (nat i) cs)"]) auto
    show ?thesis
      using run comb one rs True by (intro exI[of _ "lex # rest"]) simp
  qed
qed

lemma new_Lexer_ok: "lexer_ok (new_Lexer t off)"
  by (simp add: lexer_ok_def new_Lexer_def new_StringIterator_def getLength_def Let_def split: option.splits)

lemma new_Lexer_fresh: "fresh lexerLeaf lexerView (Leaf (new_Lexer t off))"
  using new_Lexer_ok[of t off]
  by (simp add: lexerView_def lexerLeaf_def Lexer_hasStarted_def StringIterator_hasStarted_def
      new_Lexer_def new_StringIterator_def Let_def)

lemma lexerRun_present:
  assumes "lexer_ok l" "si_text (lx_iterator l) = Some cs"
  shows "lexerRun (Suc n) l = lexerRun (Suc n) (lexerAt cs (si_startIndex (lx_iterator l))
            (si_currentIndex (lx_iterator l)) (lx_characterStartIndexOffset l) (lx_currentLex l))"
  by (simp add: Lexer_next_present[OF assms])

lemma new_Lexer_upcoming:
  "\<exists>lexes. view_upcoming lexerView (new_Lexer t off) = map Some lexes
     \<and> getCombinedText (Some (map Some lexes)) = Some (String (case t of None \<Rightarrow> [] | Some cs \<Rightarrow> cs))
     \<and> (\<forall>l \<in> set lexes. \<exists>ts. lex_text l = String ts \<and> ts \<noteq> []
            \<and> (lex_type l = LexType_Unrecognized \<longrightarrow> length ts = 1))
     \<and> (lexes = [] \<longleftrightarrow> t = None \<or> t = Some [])"
proof (cases t)
  case None
  from Lexer_next_absent[OF new_Lexer_ok, of None off] obtain l' where
    "Lexer_next (new_Lexer None off) = Some (False, l')"
    by (auto simp: new_Lexer_def new_StringIterator_def Let_def)
  then have "view_upcoming lexerView (new_Lexer t off) = map Some []"
    using None by (simp add: lexerView_def)
  then show ?thesis using None by (intro exI[of _ "[]"]) (simp add: getCombinedText_def)
next
  case (Some cs)
  let ?l = "new_Lexer (Some cs) off"
  have f: "si_text (lx_iterator ?l) = Some cs" "si_currentIndex (lx_iterator ?l) = 0"
    "lexer_remaining ?l = length cs"
    by (simp_all add: new_Lexer_def new_StringIterator_def Let_def lexer_remaining_def getLength_def)
  from lexerRun_at[of 0 cs "si_startIndex (lx_iterator ?l)" "lx_characterStartIndexOffset ?l" "lx_currentLex ?l"]
  obtain lexes where
    r: "lexerRun (Suc (length cs)) (lexerAt cs (si_startIndex (lx_iterator ?l)) 0
          (lx_characterStartIndexOffset ?l) (lx_currentLex ?l)) = map Some lexes"
    and c: "\<And>acc. getCombinedText_loop (String acc) (map Some lexes) = Some (String (acc @ cs))"
    and s: "\<forall>l \<in> set lexes. \<exists>ts. lex_text l = String ts \<and> ts \<noteq> []
            \<and> (lex_type l = LexType_Unrecognized \<longrightarrow> length ts = 1)"
    and e: "lexes = [] \<longleftrightarrow> cs = []"
    by auto
  have "view_upcoming lexerView ?l = lexerRun (Suc (length cs)) ?l"
    by (simp add: lexerView_def f(3) del: lexerRun.simps)
  also have "\<dots> = map Some lexes"
    unfolding lexerRun_present[OF new_Lexer_ok f(1), where n = "length cs"] f(2) by (rule r)
  finally show ?thesis
    using Some c[of "[]"] s e by (intro exI[of _ lexes]) (simp add: getCombinedText_def)
qed


section \<open>Every iterator follows the protocol\<close>

lemma nexts_sem:
  assumes C: "leaf_contract L V"
  shows "leaves_ok V it \<Longrightarrow>
    \<exists>it'. Iterator_nexts L (Suc n) it
          = Some (replicate (min (Suc n) (length (upcoming V it))) True
                   @ replicate (Suc n - length (upcoming V it)) False, it')
      \<and> leaves_ok V it'
      \<and> current V it' = headOption (drop n (upcoming V it))
      \<and> upcoming V it' = drop (Suc n) (upcoming V it)
      \<and> (Iterator_hasStarted L it \<or> startable it \<longrightarrow> Iterator_hasStarted L it')"
proof (induction n arbitrary: it)
  case 0
  from cursor_all[OF C 0] obtain it' where
    n: "call L Next it = Some (Bool (upcoming V it \<noteq> []), it')" and a: "advances L V it it'"
    by (elim cursorE)
  show ?case
    using n a
    by (intro exI[of _ it']) (cases "upcoming V it"; simp add: Iterator_next_def advances_def isTrue_Bool)
next
  case (Suc n)
  from cursor_all[OF C Suc.prems] obtain it1 where
    n: "call L Next it = Some (Bool (upcoming V it \<noteq> []), it1)" and a: "advances L V it it1"
    by (elim cursorE)
  have ok1: "leaves_ok V it1" and up1: "upcoming V it1 = tl (upcoming V it)"
    and st1: "Iterator_hasStarted L it \<or> startable it \<longrightarrow> Iterator_hasStarted L it1"
    using a by (simp_all add: advances_def)
  from Suc.IH[OF ok1] obtain it' where
    r: "Iterator_nexts L (Suc n) it1
          = Some (replicate (min (Suc n) (length (upcoming V it1))) True
                   @ replicate (Suc n - length (upcoming V it1)) False, it')"
    and ok': "leaves_ok V it'"
    and cur': "current V it' = headOption (drop n (upcoming V it1))"
    and up': "upcoming V it' = drop (Suc n) (upcoming V it1)"
    and st': "Iterator_hasStarted L it1 \<or> startable it1 \<longrightarrow> Iterator_hasStarted L it'"
    by (elim exE conjE)
  have run: "Iterator_nexts L (Suc (Suc n)) it
      = Some ((upcoming V it \<noteq> []) # (replicate (min (Suc n) (length (upcoming V it1))) True
                   @ replicate (Suc n - length (upcoming V it1)) False), it')"
  proof -
    have nx: "Iterator_next L it = Some (upcoming V it \<noteq> [], it1)"
      using n by (simp add: Iterator_next_def isTrue_Bool)
    show ?thesis
      by (subst Iterator_nexts.simps(2)) (simp add: nx r del: Iterator_nexts.simps replicate.simps)
  qed
  show ?case
    unfolding run using ok' cur' up' st' st1 up1
    by (intro exI[of _ it']) (cases "upcoming V it"; simp add: drop_Suc)
qed


lemma last_run: "last (replicate (min (Suc n) k) True @ replicate (Suc n - k) False) = (n < k)"
  by (cases "n < k") (simp_all add: min_def Suc_diff_le)

lemma dropWhile_run: "dropWhile id (replicate a True @ replicate b False) = replicate b False"
proof (induction a)
  case 0
  show ?case by (cases b) simp_all
next
  case (Suc a)
  then show ?case by simp
qed

lemma headOption_drop_None: "(headOption (drop n xs) = None) = (\<not> n < length xs)"
proof (cases "n < length xs")
  case True
  then show ?thesis by (simp add: headOption_def Cons_nth_drop_Suc[symmetric])
next
  case False
  then show ?thesis by (simp add: headOption_def)
qed

lemma protocol_generic:
  assumes C: "leaf_contract L V" and f: "fresh L V it"
  shows "created_unstarted L it
       \<and> (startable it \<longrightarrow> started_after_nexts L it (Suc n))
       \<and> next_reports_hasCurrent L it (Suc n)
       \<and> false_is_final L it (Suc n)"
proof -
  from fresh_props[OF f] have ok: "leaves_ok V it" and cur: "current V it = None"
    and ns: "\<not> Iterator_hasStarted L it" by simp_all
  from cursor_all[OF C ok] obtain h where
    hc: "call L HasCurrent it = Some (Bool (current V it \<noteq> None), h)"
    by (elim cursorE)
  have p1: "created_unstarted L it"
    using ns hc cur by (simp add: created_unstarted_def Iterator_hasCurrent_def isTrue_Bool)
  let ?rs = "replicate (min (Suc n) (length (upcoming V it))) True
                   @ replicate (Suc n - length (upcoming V it)) False"
  from nexts_sem[OF C ok, of n] obtain it' where
    run: "Iterator_nexts L (Suc n) it = Some (?rs, it')"
    and ok': "leaves_ok V it'"
    and cur': "current V it' = headOption (drop n (upcoming V it))"
    and st': "Iterator_hasStarted L it \<or> startable it \<longrightarrow> Iterator_hasStarted L it'"
    by (elim exE conjE)
  from cursor_all[OF C ok'] obtain h' g' where
    hc': "call L HasCurrent it' = Some (Bool (current V it' \<noteq> None), h')"
    and gc': "call L GetCurrent it' = Some (Value (currentValue (current V it')), g')"
    by (elim cursorE)
  have p2: "startable it \<longrightarrow> started_after_nexts L it (Suc n)"
    unfolding started_after_nexts_def run using st' by simp
  have p3: "next_reports_hasCurrent L it (Suc n)"
    unfolding next_reports_hasCurrent_def run
    using hc' by (simp add: Iterator_hasCurrent_def isTrue_Bool last_run cur' headOption_drop_None
        not_le del: replicate.simps)
  have p4: "false_is_final L it (Suc n)"
    unfolding false_is_final_def run
    using gc' by (simp add: Iterator_getCurrent_def valueOf_Value last_run cur' headOption_drop_None
        dropWhile_run list_all_iff currentValue_def del: replicate.simps)
  show ?thesis using p1 p2 p3 p4 by (intro conjI)
qed

lemma fresh_hasCurrent:
  assumes C: "leaf_contract L V"
  shows "fresh L V it \<Longrightarrow> call L HasCurrent it = Some (Bool False, it)"
proof (induction it)
  case (Leaf b)
  then show ?case using C by (simp add: call_Leaf Leaf_methods_def leaf_contract_def)
next
  case (WhereIterator it c)
  then show ?case by (simp add: call_Where WhereIterator_methods_def)
next
  case (SkipIterator it k n)
  then show ?case by (simp add: call_Skip SkipIterator_methods_def)
next
  case (TakeIterator it k n)
  then show ?case by (simp add: call_Take TakeIterator_methods_def)
next
  case (MapIterator it f s)
  then show ?case by (simp add: call_Map MapIterator_methods_def split: option.splits)
next
  case (ConcatenateIterator it1 it2)
  then show ?case by (simp add: call_Concatenate ConcatenateIterator_methods_def)
qed

lemma fresh_operators:
  assumes C: "leaf_contract L V" and f: "fresh L V it"
  shows "Iterator_where L it condition = Some (WhereIterator it condition)"
    and "fresh L V (WhereIterator it condition)"
    and "Iterator_skip it toSkip = SkipIterator it toSkip 0"
    and "fresh L V (SkipIterator it toSkip 0)"
    and "Iterator_take L it toTake = Some (TakeIterator it toTake 0)"
    and "fresh L V (TakeIterator it toTake 0)"
    and "Iterator_map L it mapFunction = MapIterator it mapFunction False"
    and "fresh L V (MapIterator it mapFunction False)"
    and "fresh L V second \<Longrightarrow> fresh L V (Iterator_concatenate it (Some second))"
proof -
  note h = fresh_hasCurrent[OF C f]
  have ns: "\<not> Iterator_hasStarted L it" using fresh_props[OF f] by simp
  show "Iterator_where L it condition = Some (WhereIterator it condition)"
    by (cases condition)
       (simp_all add: Iterator_where_def new_WhereIterator_def new_WhereIterator_loop.simps[of L _ it] h)
  show "Iterator_skip it toSkip = SkipIterator it toSkip 0"
    by (simp add: Iterator_skip_def new_SkipIterator_def)
  show "Iterator_take L it toTake = Some (TakeIterator it toTake 0)"
    by (simp add: Iterator_take_def new_TakeIterator_def h)
  show "Iterator_map L it mapFunction = MapIterator it mapFunction False"
    by (simp add: Iterator_map_def new_MapIterator_def ns)
  show "fresh L V (WhereIterator it condition)" "fresh L V (SkipIterator it toSkip 0)"
    "fresh L V (TakeIterator it toTake 0)" "fresh L V (MapIterator it mapFunction False)"
    using f by simp_all
  show "fresh L V second \<Longrightarrow> fresh L V (Iterator_concatenate it (Some second))"
    using f by (simp add: Iterator_concatenate_def)
qed

lemma fresh_reverse: "fresh libraryLeaf libraryView (Leaf (OfArrayList (ArrayList_iterateReverse al)))"
  by (simp add: libraryLeaf_def libraryView_def ArrayList_iterateReverse_def isDefined_def)

lemma fresh_string:
  "t \<noteq> None \<or> (case endIndex of None \<Rightarrow> 0 | Some e \<Rightarrow> e) = (case startIndex of None \<Rightarrow> 0 | Some s \<Rightarrow> s)
    \<Longrightarrow> fresh libraryLeaf libraryView (Leaf (OfString (new_StringIterator t startIndex endIndex)))"
  by (auto simp: libraryLeaf_def libraryView_def new_StringIterator_def Let_def stringIterator_ok_def
      StringIterator_hasStarted_def stringIterator_current_def StringIterator_hasCurrent_def
      StringIterator_hasMore_def getLength_def split: option.splits)


section \<open>What an Iterable stands for\<close>

lemma getCount_loop_sem:
  assumes C: "leaf_contract L V"
  shows "leaves_ok V it \<Longrightarrow>
    \<exists>it'. getCount_loop L it r = Some (r + int (length (upcoming V it)), it')
       \<and> leaves_ok V it' \<and> depth it' = depth it"
proof (induction "length (upcoming V it)" arbitrary: it r)
  case 0
  from cursor_all[OF C 0(2)] obtain it1 where
    n: "call L Next it = Some (Bool (upcoming V it \<noteq> []), it1)" and a: "advances L V it it1"
    by (elim cursorE)
  show ?case
    using 0(1) n a by (subst getCount_loop.simps) (simp add: advances_def)
next
  case (Suc k)
  from cursor_all[OF C Suc(3)] obtain it1 where
    n: "call L Next it = Some (Bool (upcoming V it \<noteq> []), it1)" and a: "advances L V it it1"
    by (elim cursorE)
  have ok1: "leaves_ok V it1" and up1: "upcoming V it1 = tl (upcoming V it)" and d1: "depth it1 = depth it"
    using a by (simp_all add: advances_def)
  have k: "k = length (upcoming V it1)" using Suc(2) up1 by simp
  from Suc(1)[OF k ok1, of "r + 1"] obtain it' where
    "getCount_loop L it1 (r + 1) = Some (r + 1 + int (length (upcoming V it1)), it')"
    "leaves_ok V it'" "depth it' = depth it1"
    by (elim exE conjE)
  then show ?case
    using n Suc(2) k d1 by (subst getCount_loop.simps) (auto simp: )
qed

lemma IteratorBase_getCount_sem:
  assumes C: "leaf_contract L V" and ok: "leaves_ok V it"
  shows "\<exists>it'. IteratorBase_getCount L it
      = Some (int (length (currentList (current V it) @ upcoming V it)), it')
       \<and> leaves_ok V it' \<and> depth it' = depth it"
proof -
  from cursor_all[OF C ok] obtain h where
    hc: "call L HasCurrent it = Some (Bool (current V it \<noteq> None), h)" and kh: "keeps L V it h"
    by (elim cursorE)
  have okh: "leaves_ok V h" and uph: "upcoming V h = upcoming V it" and dh: "depth h = depth it"
    using kh by (simp_all add: keeps_def)
  from getCount_loop_sem[OF C okh, of "if current V it \<noteq> None then 1 else 0"] show ?thesis
    using hc uph dh by (auto simp: IteratorBase_getCount_def currentList_def split: option.splits)
qed

lemma Iterator_getCount_sem:
  assumes C: "leaf_contract L V"
  shows "leaves_ok V it \<Longrightarrow> \<exists>it'. Iterator_getCount L it
      = Some (int (length (currentList (current V it) @ upcoming V it)), it')
       \<and> leaves_ok V it' \<and> depth it' = depth it"
proof (induction it)
  case (MapIterator inner f s)
  show ?case
  proof (cases f)
    case None
    then show ?thesis using MapIterator.prems by (simp add: isDefined_def currentList_def)
  next
    case (Some g)
    from MapIterator.IH MapIterator.prems obtain inner' where
      "Iterator_getCount L inner = Some (int (length (currentList (current V inner) @ upcoming V inner)), inner')"
      "leaves_ok V inner'" "depth inner' = depth inner"
      by auto
    then show ?thesis using Some
      by (auto simp: isDefined_def currentList_def split: option.splits)
  qed
next
  case (Leaf b)
  from IteratorBase_getCount_sem[OF C Leaf.prems] show ?case by (simp only: Iterator_getCount.simps)
next
  case (WhereIterator it c)
  from IteratorBase_getCount_sem[OF C WhereIterator.prems] show ?case by (simp only: Iterator_getCount.simps)
next
  case (SkipIterator it k n)
  from IteratorBase_getCount_sem[OF C SkipIterator.prems] show ?case by (simp only: Iterator_getCount.simps)
next
  case (TakeIterator it k n)
  from IteratorBase_getCount_sem[OF C TakeIterator.prems] show ?case by (simp only: Iterator_getCount.simps)
next
  case (ConcatenateIterator it1 it2)
  from IteratorBase_getCount_sem[OF C ConcatenateIterator.prems] show ?case
    by (simp only: Iterator_getCount.simps)
qed

lemma map_textAt_upto: "map (textAt (Some cs)) [0 .. int (length cs) - 1] = map Some cs"
proof (induction cs rule: rev_induct)
  case Nil
  show ?case by simp
next
  case (snoc x xs)
  have u: "[0 .. int (length (xs @ [x])) - 1] = [0 .. int (length xs) - 1] @ [int (length xs)]"
    using upto_rec2[of 0 "int (length xs)"] by simp
  have "map (textAt (Some (xs @ [x]))) [0 .. int (length xs) - 1] = map (textAt (Some xs)) [0 .. int (length xs) - 1]"
    by (rule map_cong) (auto simp: textAt_def nth_append)
  then have a: "map (textAt (Some (xs @ [x]))) [0 .. int (length xs) - 1] = map Some xs"
    using snoc by simp
  have b: "textAt (Some (xs @ [x])) (int (length xs)) = Some x" by (simp add: textAt_def)
  show ?case
    unfolding u by (simp add: a b)
qed

lemma StringIterable_upcoming:
  "stringIterator_upcoming (new_StringIterator t (Some 0) (Some (getLength t)))
     = (case t of None \<Rightarrow> [] | Some cs \<Rightarrow> map Some cs)"
  by (cases t) (simp_all add: stringIterator_upcoming_def new_StringIterator_def getLength_def
      Let_def map_textAt_upto)

lemma iterate_sem:
  "\<exists>it. Iterable_iterate s = Some it \<and> fresh libraryLeaf libraryView it
      \<and> upcoming libraryView it = elements s"
proof (induction s)
  case (ArrayListIterable al)
  show ?case using fresh_forward[of al]
    by (simp add: libraryView_def ArrayList_iterate_def)
next
  case (StringIterable t)
  have "fresh libraryLeaf libraryView (Leaf (OfString (new_StringIterator t (Some 0) (Some (getLength t)))))"
    by (rule fresh_string) (cases t; simp add: getLength_def)
  then show ?case using StringIterable_upcoming[of t] by (simp add: libraryView_def)
next
  case (WhereIterable s c)
  then obtain it where "Iterable_iterate s = Some it" "fresh libraryLeaf libraryView it"
    "upcoming libraryView it = elements s" by blast
  then show ?case
    using fresh_operators(1,2)[OF libraryLeaf_contract, of it "Some c"] by simp
next
  case (SkipIterable s n)
  then obtain it where "Iterable_iterate s = Some it" "fresh libraryLeaf libraryView it"
    "upcoming libraryView it = elements s" by blast
  then show ?case
    using fresh_operators(3,4)[OF libraryLeaf_contract, of it "Some n"] by (simp add: pendingSkips_def)
next
  case (TakeIterable s n)
  then obtain it where "Iterable_iterate s = Some it" "fresh libraryLeaf libraryView it"
    "upcoming libraryView it = elements s" by blast
  then show ?case
    using fresh_operators(5,6)[OF libraryLeaf_contract, of it "Some n"] by simp
next
  case (MapIterable s f)
  then obtain it where "Iterable_iterate s = Some it" "fresh libraryLeaf libraryView it"
    "upcoming libraryView it = elements s" by blast
  then show ?case
    using fresh_operators(7,8)[OF libraryLeaf_contract, of it "Some f"] by simp
next
  case (ConcatenateIterable s al)
  then obtain it where "Iterable_iterate s = Some it" "fresh libraryLeaf libraryView it"
    "upcoming libraryView it = elements s" by blast
  then show ?case
    using fresh_forward[of al]
    by (simp add: Iterator_concatenate_def libraryView_def ArrayList_iterate_def)
qed

lemma Iterable_toArray_sem: "Iterable_toArray s = Some (elements s)"
proof -
  from iterate_sem[of s] obtain it where i: "Iterable_iterate s = Some it"
    and f: "fresh libraryLeaf libraryView it" and u: "upcoming libraryView it = elements s"
    by blast
  from fresh_props[OF f] have ok: "leaves_ok libraryView it" and c: "current libraryView it = None"
    by simp_all
  from toArray_sem[OF libraryLeaf_contract ok] show ?thesis
    by (auto simp: Iterable_toArray_def i c u currentList_def)
qed

lemma IterableBase_getCount_sem: "IterableBase_getCount s = Some (int (length (elements s)))"
proof -
  from iterate_sem[of s] obtain it where i: "Iterable_iterate s = Some it"
    and f: "fresh libraryLeaf libraryView it" and u: "upcoming libraryView it = elements s"
    by blast
  from fresh_props[OF f] have ok: "leaves_ok libraryView it" and c: "current libraryView it = None"
    by simp_all
  from Iterator_getCount_sem[OF libraryLeaf_contract ok] show ?thesis
    by (auto simp: IterableBase_getCount_def i c u currentList_def)
qed

lemma Iterable_getCount_sem:
  "constructed s \<Longrightarrow> Iterable_getCount s = Some (int (length (elements s)))"
proof (induction s)
  case (ArrayListIterable al)
  show ?case by (simp add: ArrayList_getCount_def ArrayList_elements_length)
next
  case (SkipIterable s n)
  then show ?case by auto
next
  case (TakeIterable s n)
  then show ?case by auto
next
  case (MapIterable s f)
  then show ?case by simp
qed (simp_all add: IterableBase_getCount_sem del: elements.simps)

lemma new_ArrayList_empty: "ArrayList_elements (new_ArrayList None) = []"
  by (simp add: new_ArrayList_def ArrayList_addAll_def ArrayList_elements_def)

lemma Iterator_toArray_view:
  assumes "leaf_contract L V" "leaves_ok V it"
  shows "map_option fst (Iterator_toArray L it) = Some (currentList (current V it) @ upcoming V it)"
  using toArray_sem[OF assms] by auto

lemma constructed_operators:
  assumes "constructed s"
  shows "constructed (Iterable_where s condition)" "constructed (Iterable_skip s toSkip)"
    "constructed (Iterable_take s toTake)" "constructed (Iterable_map s mapFunction)"
    "Iterable_concatenate s toConcatenate = Some r \<Longrightarrow> constructed r"
  using assms
  by (auto simp: Iterable_where_def Iterable_skip_def Iterable_take_def Iterable_map_def
      Iterable_concatenate_def split: option.splits sum.splits Option.bind_splits)

lemma Iterator_take_ok:
  assumes C: "leaf_contract L V" and ok: "leaves_ok V it"
  shows "\<exists>h. Iterator_take L it k = Some (TakeIterator h k (if current V it \<noteq> None then 1 else 0))
     \<and> leaves_ok V h \<and> current V h = current V it \<and> upcoming V h = upcoming V it"
proof -
  from cursor_all[OF C ok] obtain h where
    hc: "call L HasCurrent it = Some (Bool (current V it \<noteq> None), h)" and kh: "keeps L V it h"
    by (elim cursorE)
  show ?thesis
    using hc kh by (intro exI[of _ h]) (simp add: Iterator_take_def new_TakeIterator_def keeps_def)
qed

lemma nexts_empty:
  assumes C: "leaf_contract L V" and ok: "leaves_ok V it" and e: "upcoming V it = []"
  shows "map_option fst (Iterator_nexts L (Suc k) it) = Some (replicate (Suc k) False)"
  using nexts_sem[OF C ok, of k] e by auto

lemma degenerate_take_empty:
  assumes C: "leaf_contract L V" and ok: "leaves_ok V it" and k: "k = None \<or> (\<exists>n. k = Some n \<and> n \<le> 0)"
  shows "\<exists>t. Iterator_take L it k = Some t
     \<and> map_option fst (Iterator_toArray L t) = Some []
     \<and> map_option fst (Iterator_nexts L (Suc j) t) = Some (replicate (Suc j) False)"
proof -
  from Iterator_take_ok[OF C ok, of k] obtain h where
    t: "Iterator_take L it k = Some (TakeIterator h k (if current V it \<noteq> None then 1 else 0))"
    and okh: "leaves_ok V h" and ch: "current V h = current V it"
    by (elim exE conjE)
  define t where "t = TakeIterator h k (if current V it \<noteq> None then 1 else 0)"
  have okt: "leaves_ok V t" using okh by (simp add: t_def)
  have cur: "current V t = None" using k ch by (auto simp: canTakeValue_def t_def)
  have up: "upcoming V t = []" using k by (auto simp: t_def)
  have a: "map_option fst (Iterator_toArray L t) = Some []"
    using Iterator_toArray_view[OF C okt] by (simp add: cur up currentList_def)
  have "Iterator_take L it k = Some t" using t by (simp add: t_def)
  then show ?thesis
    using a nexts_empty[OF C okt up, of j] by (intro exI[of _ t] conjI)
qed


section \<open>Removing from an ArrayList and adding to a Map\<close>

lemma arrayIndex_arrayAssign:
  "arrayIndex (arrayAssign d i v) (int j) = (if j = i then v else arrayIndex d (int j))"
  by (auto simp: arrayIndex_def arrayAssign_def nth_append)

lemma arrayIndex_removeAt_shift:
  "arrayIndex (removeAt_shift d i n) (int j)
     = (if i \<le> j \<and> j < i + n then arrayIndex d (int j + 1) else arrayIndex d (int j))"
proof (induction n arbitrary: d i)
  case 0
  show ?case by auto
next
  case (Suc n)
  have s: "int i + 1 = int (Suc i)" "int j + 1 = int (Suc j)" by simp_all
  show ?case
    unfolding removeAt_shift.simps Suc.IH s arrayIndex_arrayAssign
    by auto
qed

lemma ArrayList_add_elements: "ArrayList_elements (ArrayList_add al v) = ArrayList_elements al @ [v]"
proof -
  have "arrayIndex (al_data (ArrayList_add al v)) (int j)
      = (if j = al_count al then v else arrayIndex (al_data al) (int j))" if "j \<le> al_count al" for j
  proof (cases "al_count al = length (al_data al)")
    case True
    then show ?thesis using that by (auto simp: ArrayList_add_def arrayIndex_def nth_append)
  next
    case False
    then show ?thesis by (simp add: ArrayList_add_def arrayIndex_arrayAssign)
  qed
  moreover have "al_count (ArrayList_add al v) = Suc (al_count al)"
    by (simp add: ArrayList_add_def)
  ultimately show ?thesis
    by (simp add: ArrayList_elements_def)
qed

lemma ArrayList_removeAt_elements:
  assumes "i < al_count al"
  shows "fst (ArrayList_removeAt al (Some (int i))) = ArrayList_elements al ! i"
    and "ArrayList_elements (snd (ArrayList_removeAt al (Some (int i))))
       = take i (ArrayList_elements al) @ drop (Suc i) (ArrayList_elements al)"
proof -
  show "fst (ArrayList_removeAt al (Some (int i))) = ArrayList_elements al ! i"
    using assms by (simp add: ArrayList_removeAt_def ArrayList_elements_nth)
  let ?al' = "snd (ArrayList_removeAt al (Some (int i)))"
  have c: "al_count ?al' = al_count al - 1"
    using assms by (simp add: ArrayList_removeAt_def)
  have d: "arrayIndex (al_data ?al') (int j) = (if i \<le> j then arrayIndex (al_data al) (int (Suc j)) else arrayIndex (al_data al) (int j))"
    if "j < al_count al - 1" for j
    using assms that
    by (auto simp: ArrayList_removeAt_def arrayIndex_arrayAssign arrayIndex_removeAt_shift add.commute)
  show "ArrayList_elements ?al' = take i (ArrayList_elements al) @ drop (Suc i) (ArrayList_elements al)"
  proof (rule nth_equalityI)
    show "length (ArrayList_elements ?al') = length (take i (ArrayList_elements al) @ drop (Suc i) (ArrayList_elements al))"
      using assms c by (simp add: ArrayList_elements_length)
    fix j assume "j < length (ArrayList_elements ?al')"
    then have j: "j < al_count al - 1" using c by (simp add: ArrayList_elements_length)
    then show "ArrayList_elements ?al' ! j = (take i (ArrayList_elements al) @ drop (Suc i) (ArrayList_elements al)) ! j"
      using assms d[OF j] c
      by (auto simp: ArrayList_elements_nth nth_append ArrayList_elements_length min_def)
  qed
qed

lemma indexOf_loop_keys:
  "\<forall>j. i \<le> j \<and> j < i + n \<longrightarrow> arrayIndex d (int j) \<noteq> None \<Longrightarrow>
   indexOf_loop d (Some keyComparer) (Some p) i n
     = Some (let t = length (takeWhile (\<lambda>e. map_option kv_key e \<noteq> Some (kv_key p))
                               (map (\<lambda>j. arrayIndex d (int j)) [i..<i + n]))
             in if t < n then Some (int (i + t)) else None)"
proof (induction n arbitrary: i)
  case 0
  show ?case by simp
next
  case (Suc n)
  from Suc.prems obtain l where l: "arrayIndex d (int i) = Some l" by force
  have u: "[i..<i + Suc n] = i # [Suc i..<Suc i + n]" by (simp add: upt_rec)
  have ih: "indexOf_loop d (Some keyComparer) (Some p) (Suc i) n
     = Some (let t = length (takeWhile (\<lambda>e. map_option kv_key e \<noteq> Some (kv_key p))
                               (map (\<lambda>j. arrayIndex d (int j)) [Suc i..<Suc i + n]))
             in if t < n then Some (int (Suc i + t)) else None)"
    using Suc.prems by (intro Suc.IH) auto
  have kc: "keyComparer (Some l) (Some p) = Some (kv_key l = kv_key p)"
    by (simp add: keyComparer_def)
  show ?case
    unfolding u by (simp add: l kc ih Let_def)
qed

lemma remove_first_distinct:
  "distinct (map f xs) \<Longrightarrow>
   takeWhile (\<lambda>x. f x \<noteq> a) xs @ drop (Suc (length (takeWhile (\<lambda>x. f x \<noteq> a) xs))) xs
     = filter (\<lambda>x. f x \<noteq> a) xs"
proof (induction xs)
  case Nil
  show ?case by simp
next
  case (Cons x xs)
  show ?case
  proof (cases "f x = a")
    case True
    then have "\<forall>y \<in> set xs. f y \<noteq> a" using Cons.prems by (metis distinct.simps(2) image_eqI list.simps(9) set_map)
    then have "filter (\<lambda>x. f x \<noteq> a) xs = xs" by (simp add: filter_id_conv)
    then show ?thesis using True by simp
  next
    case False
    then show ?thesis using Cons by simp
  qed
qed

lemma ArrayList_remove_key:
  assumes d: "list_all (\<lambda>e. e \<noteq> None) (ArrayList_elements al)"
    and k: "distinct (map (map_option kv_key) (ArrayList_elements al))"
  shows "\<exists>r al'. ArrayList_remove al (Some p) (Some keyComparer) = Some (r, al')
     \<and> ArrayList_elements al' = filter (\<lambda>e. map_option kv_key e \<noteq> Some (kv_key p)) (ArrayList_elements al)"
proof -
  let ?P = "\<lambda>e. map_option kv_key e \<noteq> Some (kv_key p)"
  let ?els = "ArrayList_elements al"
  let ?t = "length (takeWhile ?P ?els)"
  have all: "\<forall>j. 0 \<le> j \<and> j < 0 + al_count al \<longrightarrow> arrayIndex (al_data al) (int j) \<noteq> None"
    using d by (auto simp: list_all_length ArrayList_elements_length ArrayList_elements_nth)
  have els: "map (\<lambda>j. arrayIndex (al_data al) (int j)) [0..<0 + al_count al] = ?els"
    by (simp add: ArrayList_elements_def)
  have io: "ArrayList_indexOf al (Some p) (Some keyComparer)
      = Some (if ?t < al_count al then Some (int ?t) else None)"
    unfolding ArrayList_indexOf_def indexOf_loop_keys[OF all] els by (simp add: Let_def)
  show ?thesis
  proof (cases "?t < al_count al")
    case True
    have "ArrayList_remove al (Some p) (Some keyComparer) = Some (ArrayList_removeAt al (Some (int ?t)))"
      using True by (simp add: ArrayList_remove_def io isDefined_def)
    moreover have "ArrayList_elements (snd (ArrayList_removeAt al (Some (int ?t)))) = filter ?P ?els"
      unfolding ArrayList_removeAt_elements(2)[OF True]
      using remove_first_distinct[OF k, of "Some (kv_key p)"] by (simp add: takeWhile_eq_take[symmetric])
    ultimately show ?thesis
      by (intro exI[of _ "fst (ArrayList_removeAt al (Some (int ?t)))"]
          exI[of _ "snd (ArrayList_removeAt al (Some (int ?t)))"]) simp
  next
    case False
    then have "?t = length ?els"
      using length_takeWhile_le[of ?P ?els] by (simp add: ArrayList_elements_length)
    then have "takeWhile ?P ?els = ?els"
      by (metis takeWhile_eq_take take_all order_refl)
    then have "filter ?P ?els = ?els"
      by (metis filter_id_conv set_takeWhileD)
    moreover have "ArrayList_remove al (Some p) (Some keyComparer) = Some (None, al)"
      using False by (simp add: ArrayList_remove_def io isDefined_def)
    ultimately show ?thesis by simp
  qed
qed

lemma Map_add_sem:
  assumes "Map_ok m"
  shows "\<exists>m'. Map_add m k v = Some m' \<and> Map_ok m'
     \<and> Map_entries m' = otherKeys k (Map_entries m) @ [Some \<lparr> kv_key = k, kv_value = v \<rparr>]"
proof -
  let ?p = "\<lparr> kv_key = k, kv_value = v \<rparr>"
  from assms have d: "list_all (\<lambda>e. e \<noteq> None) (ArrayList_elements (Map_pairs m))"
    and ks: "distinct (map (map_option kv_key) (ArrayList_elements (Map_pairs m)))"
    by (simp_all add: Map_ok_def Map_entries_def)
  from ArrayList_remove_key[OF d ks, of ?p] obtain r al' where
    r: "ArrayList_remove (Map_pairs m) (Some ?p) (Some keyComparer) = Some (r, al')"
    and e: "ArrayList_elements al' = otherKeys k (Map_entries m)"
    by (auto simp: otherKeys_def Map_entries_def)
  let ?m' = "m\<lparr> Map_pairs := ArrayList_add al' (Some ?p) \<rparr>"
  have a: "Map_add m k v = Some ?m'" by (simp add: Map_add_def r)
  have en: "Map_entries ?m' = otherKeys k (Map_entries m) @ [Some ?p]"
    by (simp add: Map_entries_def ArrayList_add_elements e)
  have ok: "Map_ok ?m'"
    unfolding Map_ok_def en using assms
    by (auto simp: Map_ok_def otherKeys_def list_all_iff distinct_map_filter)
  show ?thesis using a en ok by (intro exI[of _ ?m']) simp
qed

lemma otherKeys_idem: "otherKeys k (otherKeys k es @ [Some \<lparr> kv_key = k, kv_value = v \<rparr>]) = otherKeys k es"
  by (simp add: otherKeys_def)

lemma Map_getCount_entries: "Map_getCount m = int (length (Map_entries m))"
  by (simp add: Map_getCount_def Map_entries_def ArrayList_getCount_def ArrayList_elements_length)

lemma Map_get_sem:
  "Map_get m k = Some (case filter (\<lambda>e. map_option kv_key e = Some k) (Map_entries m) of
                         [] \<Rightarrow> None
                       | e # rest \<Rightarrow> (case e of None \<Rightarrow> None | Some p \<Rightarrow> kv_value p))"
proof -
  note C = libraryLeaf_contract
  let ?c = "\<lambda>pair. case pair of None \<Rightarrow> False | Some p \<Rightarrow> kv_key p = k"
  let ?it = "Leaf (OfArrayList (ArrayList_iterate (Map_pairs m)))"
  let ?w = "WhereIterator ?it (Some ?c)"
  have c: "?c = (\<lambda>e. map_option kv_key e = Some k)"
    by (rule ext) (simp split: option.splits)
  have f: "fresh libraryLeaf libraryView ?it" by (rule fresh_forward)
  have w: "Iterator_where libraryLeaf ?it (Some ?c) = Some ?w"
    by (rule fresh_operators(1)[OF C f])
  have fw: "fresh libraryLeaf libraryView ?w" by (rule fresh_operators(2)[OF C f])
  have okw: "leaves_ok libraryView ?w" and ns: "\<not> Iterator_hasStarted libraryLeaf ?w"
    using fresh_props[OF fw] by simp_all
  have up: "upcoming libraryView ?w = filter ?c (Map_entries m)"
    by (simp add: libraryView_def ArrayList_iterate_def Map_entries_def)
  from cursor_all[OF C okw] obtain w1 where
    n: "call libraryLeaf Next ?w = Some (Bool (upcoming libraryView ?w \<noteq> []), w1)"
    and a: "advances libraryLeaf libraryView ?w w1"
    by (elim cursorE)
  have ok1: "leaves_ok libraryView w1" and cur1: "current libraryView w1 = headOption (upcoming libraryView ?w)"
    using a by (simp_all add: advances_def)
  from cursor_all[OF C ok1] obtain w2 where
    g: "call libraryLeaf GetCurrent w1 = Some (Value (currentValue (current libraryView w1)), w2)"
    by (elim cursorE)
  have first: "Iterator_first libraryLeaf ?it (Some ?c)
      = Some (currentValue (headOption (filter ?c (Map_entries m))), w2)"
    using ns by (simp add: Iterator_first_def w IteratorBase_first_def n g cur1 up
        del: upcoming.simps current.simps Iterator_hasStarted.simps)
  have "Map_get m k = Some (case currentValue (headOption (filter ?c (Map_entries m))) of
                              None \<Rightarrow> None | Some p \<Rightarrow> kv_value p)"
    by (simp only: Map_get_def first bind.bind_lunit prod.case)
  also have "\<dots> = Some (case filter (\<lambda>e. map_option kv_key e = Some k) (Map_entries m) of
                         [] \<Rightarrow> None
                       | e # rest \<Rightarrow> (case e of None \<Rightarrow> None | Some p \<Rightarrow> kv_value p))"
    unfolding c by (simp add: currentValue_def headOption_def split: list.splits option.splits)
  finally show ?thesis .
qed

lemma Map_readd:
  assumes "Map_ok m" and "vs \<noteq> []"
  shows "\<exists>m'. Map_addAll_loop m (map (\<lambda>v. Some \<lparr> kv_key = k, kv_value = v \<rparr>) vs) = Some m' \<and> Map_ok m'
     \<and> Map_entries m' = otherKeys k (Map_entries m) @ [Some \<lparr> kv_key = k, kv_value = last vs \<rparr>]"
  using assms
proof (induction vs arbitrary: m)
  case Nil
  then show ?case by simp
next
  case (Cons v vs)
  from Map_add_sem[OF Cons.prems(1), of k v] obtain m1 where
    a: "Map_add m k v = Some m1" and ok1: "Map_ok m1"
    and e1: "Map_entries m1 = otherKeys k (Map_entries m) @ [Some \<lparr> kv_key = k, kv_value = v \<rparr>]"
    by (elim exE conjE)
  show ?case
  proof (cases "vs = []")
    case True
    then show ?thesis using a ok1 e1 by simp
  next
    case False
    from Cons.IH[OF ok1 False] obtain m' where
      "Map_addAll_loop m1 (map (\<lambda>v. Some \<lparr> kv_key = k, kv_value = v \<rparr>) vs) = Some m'" "Map_ok m'"
      "Map_entries m' = otherKeys k (Map_entries m1) @ [Some \<lparr> kv_key = k, kv_value = last vs \<rparr>]"
      by (elim exE conjE)
    then show ?thesis using a False by (simp add: e1 otherKeys_idem)
  qed
qed

lemma Map_get_last:
  assumes "Map_entries m = otherKeys k es @ [Some \<lparr> kv_key = k, kv_value = v \<rparr>]"
  shows "Map_get m k = Some v"
proof -
  have "filter (\<lambda>e. map_option kv_key e = Some k) (otherKeys k es) = []"
    by (auto simp: otherKeys_def filter_empty_conv)
  then show ?thesis unfolding Map_get_sem assms by simp
qed

lemma Map_addAll_loop_ok: "Map_ok m \<Longrightarrow> Map_addAll_loop m ps = Some m' \<Longrightarrow> Map_ok m'"
proof (induction ps arbitrary: m)
  case Nil
  then show ?case by simp
next
  case (Cons p ps)
  from Cons.prems(2) obtain q where q: "p = Some q" by (cases p) auto
  from Map_add_sem[OF Cons.prems(1), of "kv_key q" "kv_value q"] obtain m1 where
    "Map_add m (kv_key q) (kv_value q) = Some m1" "Map_ok m1" by (elim exE conjE)
  then show ?case using Cons.IH[of m1] Cons.prems(2) q by simp
qed

lemma new_Map_ok: "new_Map initialValues = Some m \<Longrightarrow> Map_ok m"
proof -
  have "Map_ok \<lparr> Map_pairs = new_ArrayList None \<rparr>"
    by (simp add: Map_ok_def Map_entries_def new_ArrayList_empty)
  then show "new_Map initialValues = Some m \<Longrightarrow> Map_ok m"
    using Map_addAll_loop_ok by (auto simp: new_Map_def Map_addAll_def split: option.splits)
qed


section \<open>C10: draining a take view advances the inner iterator once more\<close>

text \<open>
  C10: for every not-yet-started iterator \<open>it\<close> over a sequence \<open>xs\<close> of more than
  \<open>n\<close> elements (\<open>n \<ge> 1\<close>), whose leaves are cursors (as the ArrayList iterators,
  StringIterator and the Lexer are), draining \<open>it.take(n)\<close> with \<open>toArray()\<close> yields
  exactly the first \<open>n\<close> elements and leaves the take decorator with \<open>_taken = n + 1\<close>:
  the last \<open>next()\<close>, which reports exhaustion, has advanced the inner iterator as
  well, whose current value is now element \<open>n\<close> (counting from 0) and which still
  yields the elements from \<open>n\<close> on.
\<close>

theorem take_drain_consumes_one_more:
  assumes C: "leaf_contract L V" and f: "fresh L V it"
    and xs: "map_option fst (Iterator_toArray L it) = Some xs"
    and n: "1 \<le> n" "n < int (length xs)"
  shows "\<exists>view inner'. Iterator_take L it (Some n) = Some view
        \<and> Iterator_toArray L view = Some (take (nat n) xs, TakeIterator inner' (Some n) (n + 1))
        \<and> map_option fst (Iterator_getCurrent L inner') = Some (xs ! nat n)
        \<and> map_option fst (Iterator_toArray L inner') = Some (drop (nat n) xs)"
proof -
  from fresh_props[OF f] have ok: "leaves_ok V it" and cur: "current V it = None" by simp_all
  from toArray_sem[OF C ok] xs cur have up: "upcoming V it = xs"
    by (auto simp: currentList_def)
  from cursor_all[OF C ok] obtain h where
    hc: "call L HasCurrent it = Some (Bool (current V it \<noteq> None), h)" and kh: "keeps L V it h"
    by (elim cursorE)
  have okh: "leaves_ok V h" and curh: "current V h = None" and uph: "upcoming V h = xs"
    using kh cur up by (simp_all add: keeps_def)
  have view: "Iterator_take L it (Some n) = Some (TakeIterator h (Some n) 0)"
    using hc cur by (simp add: Iterator_take_def new_TakeIterator_def)
  from cursor_all[OF C okh] obtain h2 where
    hc2: "call L HasCurrent h = Some (Bool (current V h \<noteq> None), h2)" and kh2: "keeps L V h h2"
    by (elim cursorE)
  have okh2: "leaves_ok V h2" and uph2: "upcoming V h2 = xs"
    using kh2 uph by (simp_all add: keeps_def)
  let ?js = "\<lparr> js_iterator = TakeIterator h2 (Some n) 0, js_hasInitialValue = False, js_visitedInitialValue = False \<rparr>"
  have nj: "new_JavascriptIterator L (TakeIterator h (Some n) 0) = Some ?js"
    using hc2 curh by (simp add: new_JavascriptIterator_def call_Take TakeIterator_methods_def)
  have "nat (n - 0) < length (upcoming V h2)" using n uph2 by simp
  from take_drain_loop[OF C okh2 _ this, of ?js "[]"] n
  have "\<exists>js' i'. toArray_loop L ?js [] = Some ([] @ take (nat (n - 0)) (upcoming V h2), js')
      \<and> js_iterator js' = TakeIterator i' (Some n) (n + 1) \<and> leaves_ok V i'
      \<and> current V i' = Some (upcoming V h2 ! nat (n - 0))
      \<and> upcoming V i' = drop (Suc (nat (n - 0))) (upcoming V h2)"
    by simp
  then obtain js' i' where
    r: "toArray_loop L ?js [] = Some (take (nat n) xs, js')"
    and p: "js_iterator js' = TakeIterator i' (Some n) (n + 1)" "leaves_ok V i'"
      "current V i' = Some (xs ! nat n)" "upcoming V i' = drop (Suc (nat n)) xs"
    unfolding uph2 by auto
  have ta: "Iterator_toArray L (TakeIterator h (Some n) 0) = Some (take (nat n) xs, TakeIterator i' (Some n) (n + 1))"
    using nj r p(1) by (simp add: Iterator_toArray_def)
  from cursor_all[OF C p(2)] obtain g where
    "call L GetCurrent i' = Some (Value (currentValue (current V i')), g)"
    by (elim cursorE)
  then have gc: "map_option fst (Iterator_getCurrent L i') = Some (xs ! nat n)"
    using p(3) by (simp add: Iterator_getCurrent_def currentValue_def)
  from toArray_sem[OF C p(2)] p(3,4) n have
    "map_option fst (Iterator_toArray L i') = Some (drop (nat n) xs)"
    by (auto simp: currentList_def Cons_nth_drop_Suc)
  with view ta gc show ?thesis by blast
qed

text \<open>The same on the list 10, 20, 30 with \<open>n = 2\<close>: the inner iterator ends on 30.\<close>

theorem take_drain_consumes_one_more_witness:
  "leaf_contract libraryLeaf libraryView
   \<and> fresh libraryLeaf libraryView (Leaf (OfArrayList (ArrayList_iterate (new_ArrayList (Some [Some (10::int), Some 20, Some 30])))))
   \<and> map_option fst (Iterator_toArray libraryLeaf
        (Leaf (OfArrayList (ArrayList_iterate (new_ArrayList (Some [Some (10::int), Some 20, Some 30]))))))
       = Some [Some 10, Some 20, Some 30]
   \<and> (\<exists>view inner'.
        Iterator_take libraryLeaf
          (Leaf (OfArrayList (ArrayList_iterate (new_ArrayList (Some [Some (10::int), Some 20, Some 30]))))) (Some 2)
          = Some view
      \<and> Iterator_toArray libraryLeaf view = Some ([Some 10, Some 20], TakeIterator inner' (Some 2) 3)
      \<and> map_option fst (Iterator_getCurrent libraryLeaf inner') = Some (Some 30)
      \<and> map_option fst (Iterator_toArray libraryLeaf inner') = Some [Some 30])"
proof -
  let ?it = "Leaf (OfArrayList (ArrayList_iterate (new_ArrayList (Some [Some (10::int), Some 20, Some 30]))))
      :: (int LibraryLeaf, int) Iterator"
  have a: "map_option fst (Iterator_toArray libraryLeaf ?it) = Some [Some 10, Some 20, Some 30]"
    by code_simp
  have f: "fresh libraryLeaf libraryView ?it" by (rule fresh_forward)
  from take_drain_consumes_one_more[OF libraryLeaf_contract f a, of 2]
  have c: "\<exists>view inner'.
        Iterator_take libraryLeaf ?it (Some 2) = Some view
      \<and> Iterator_toArray libraryLeaf view = Some ([Some 10, Some 20], TakeIterator inner' (Some 2) 3)
      \<and> map_option fst (Iterator_getCurrent libraryLeaf inner') = Some (Some 30)
      \<and> map_option fst (Iterator_toArray libraryLeaf inner') = Some [Some 30]"
    by (simp add: numeral_2_eq_2)
  show ?thesis using libraryLeaf_contract f a c by (intro conjI)
qed

section \<open>Carriage returns in the Lexer\<close>

text \<open>
  C2.  When \<open>next()\<close> of the Lexer meets a carriage return that is followed by a
  line feed, it produces one lex with the text of both characters and moves past
  both, and the type of that lex is \<open>NewLine\<close>, not \<open>CarriageReturnNewLine\<close>;
  otherwise it produces a one-character lex of type \<open>CarriageReturn\<close> and moves
  one character.
\<close>

theorem Lexer_next_carriageReturn:
  assumes "lexer_ok l" and "si_text (lx_iterator l) = Some cs"
    and "i = si_currentIndex (lx_iterator l)" and "i < int (length cs)"
    and "cs ! nat i = CHR 0x0D"
  shows "\<exists>l'. Lexer_next l = Some (True, l') \<and> lexer_ok l'
     \<and> (if i + 1 < int (length cs) \<and> cs ! nat (i + 1) = CHR 0x0A
        then lx_currentLex l' = Some (new_Lex (String [CHR 0x0D, CHR 0x0A])
                 (i + lx_characterStartIndexOffset l) LexType_NewLine)
           \<and> si_currentIndex (lx_iterator l') = i + 2
        else lx_currentLex l' = Some (new_Lex (String [CHR 0x0D])
                 (i + lx_characterStartIndexOffset l) LexType_CarriageReturn)
           \<and> si_currentIndex (lx_iterator l') = i + 1)"
proof -
  have i0: "0 \<le> i" using assms(1,3) by (simp add: lexer_ok_def)
  have idx: "si_currentIndex (lx_iterator (lexerAt cs s k off cur)) = k" for s k off cur
    by (simp add: lexerAt_def at_def)
  show ?thesis
    unfolding Lexer_next_present[OF assms(1,2)] assms(3)[symmetric]
      lexer_next_at_CR[OF i0 assms(4,5)]
    using i0 assms(4)
    by (auto simp: lexerAt_ok lexerAt_currentLex idx)
qed

theorem Lexer_next_carriageReturn_witness:
  "map_option (\<lambda>(b, l'). (b, lx_currentLex l', si_currentIndex (lx_iterator l')))
       (Lexer_next (new_Lexer (Some [CHR 0x0D, CHR 0x0A]) None))
     = Some (True, Some \<lparr> lex_text = String [CHR 0x0D, CHR 0x0A], lex_startIndex = 0, lex_type = LexType_NewLine \<rparr>, 2)"
proof -
  let ?l = "new_Lexer (Some [CHR 0x0D, CHR 0x0A]) None"
  have ok: "lexer_ok ?l"
    by (simp add: lexer_ok_def new_Lexer_def new_StringIterator_def getLength_def Let_def)
  have t: "si_text (lx_iterator ?l) = Some [CHR 0x0D, CHR 0x0A]"
    and i: "0 = si_currentIndex (lx_iterator ?l)"
    and off: "lx_characterStartIndexOffset ?l = 0"
    by (simp_all add: new_Lexer_def new_StringIterator_def Let_def)
  from Lexer_next_carriageReturn[OF ok t i] show ?thesis
    by (auto simp: off new_Lex_def)
qed


section \<open>Draining the Lexer\<close>

text \<open>
  C9.  Draining a new Lexer over any text, also an absent one, returns: the array
  holds lexes only, each with a non-empty text, an Unrecognized lex with exactly
  one character, no lex at all exactly for an absent or empty text, and the
  combined text of the lexes is the input.
\<close>

theorem Lexer_toArray_reconstructs:
  "\<exists>lexes. map_option fst (Iterator_toArray lexerLeaf (Leaf (new_Lexer t off))) = Some (map Some lexes)
     \<and> getCombinedText (Some (map Some lexes)) = Some (String (case t of None \<Rightarrow> [] | Some cs \<Rightarrow> cs))
     \<and> (\<forall>l \<in> set lexes. \<exists>ts. lex_text l = String ts \<and> ts \<noteq> []
            \<and> (lex_type l = LexType_Unrecognized \<longrightarrow> length ts = 1))
     \<and> (lexes = [] \<longleftrightarrow> t = None \<or> t = Some [])"
proof -
  have ok: "leaves_ok lexerView (Leaf (new_Lexer t off))"
    using new_Lexer_ok[of t off] by (simp add: lexerView_def)
  have cur: "view_current lexerView (new_Lexer t off) = None"
    by (simp add: lexerView_def new_Lexer_def)
  from toArray_sem[OF lexerLeaf_contract ok] obtain it' where
    "Iterator_toArray lexerLeaf (Leaf (new_Lexer t off))
       = Some (view_upcoming lexerView (new_Lexer t off), it')"
    by (auto simp: cur currentList_def)
  then have "map_option fst (Iterator_toArray lexerLeaf (Leaf (new_Lexer t off)))
       = Some (view_upcoming lexerView (new_Lexer t off))" by simp
  moreover obtain lexes where "view_upcoming lexerView (new_Lexer t off) = map Some lexes"
     and "getCombinedText (Some (map Some lexes)) = Some (String (case t of None \<Rightarrow> [] | Some cs \<Rightarrow> cs))"
     and "\<forall>l \<in> set lexes. \<exists>ts. lex_text l = String ts \<and> ts \<noteq> []
            \<and> (lex_type l = LexType_Unrecognized \<longrightarrow> length ts = 1)"
     and "lexes = [] \<longleftrightarrow> t = None \<or> t = Some []"
    using new_Lexer_upcoming[of t off] by (elim exE conjE)
  ultimately show ?thesis
    by (intro exI[of _ lexes] conjI) (simp_all only:)
qed

theorem Lexer_toArray_reconstructs_witness:
  "\<exists>lexes. map_option fst (Iterator_toArray lexerLeaf (Leaf (new_Lexer (Some ''a1 ^'') None))) = Some (map Some lexes)
     \<and> getCombinedText (Some (map Some lexes)) = Some (String ''a1 ^'')
     \<and> (\<forall>l \<in> set lexes. \<exists>ts. lex_text l = String ts \<and> ts \<noteq> []
            \<and> (lex_type l = LexType_Unrecognized \<longrightarrow> length ts = 1))
     \<and> lexes \<noteq> []"
  using Lexer_toArray_reconstructs[of "Some ''a1 ^''" None] by simp


section \<open>The iterator protocol in the library\<close>





section \<open>skip and take\<close>

text \<open>
  C4.  For counts \<open>a, b \<ge> 0\<close>, \<open>skip(a).take(b).toArray()\<close> is
  \<open>toArray().slice(a, a + b)\<close>, which is empty when \<open>a\<close> is at least the length;
  \<open>skip(0)\<close> has the elements of the sequence and \<open>take(0)\<close> has none.  This holds
  for every Iterable, and for every iterator of the library that has not
  started.
\<close>

theorem skip_take_is_slice:
  assumes "0 \<le> a" and "0 \<le> b"
  shows "(\<exists>xs. Iterable_toArray s = Some xs
          \<and> Iterable_toArray (Iterable_take (Iterable_skip s (Some a)) (Some b))
               = Some (slice xs (nat a) (nat a + nat b))
          \<and> (int (length xs) \<le> a \<longrightarrow>
               Iterable_toArray (Iterable_take (Iterable_skip s (Some a)) (Some b)) = Some [])
          \<and> Iterable_toArray (Iterable_skip s (Some 0)) = Some xs
          \<and> Iterable_toArray (Iterable_take s (Some 0)) = Some [])
       \<and> (fresh libraryLeaf libraryView it \<longrightarrow>
           (\<exists>ys view none.
              map_option fst (Iterator_toArray libraryLeaf it) = Some ys
            \<and> Iterator_take libraryLeaf (Iterator_skip it (Some a)) (Some b) = Some view
            \<and> map_option fst (Iterator_toArray libraryLeaf view) = Some (slice ys (nat a) (nat a + nat b))
            \<and> map_option fst (Iterator_toArray libraryLeaf (Iterator_skip it (Some 0))) = Some ys
            \<and> Iterator_take libraryLeaf it (Some 0) = Some none
            \<and> map_option fst (Iterator_toArray libraryLeaf none) = Some []))"
proof (intro conjI impI)
  show "\<exists>xs. Iterable_toArray s = Some xs
          \<and> Iterable_toArray (Iterable_take (Iterable_skip s (Some a)) (Some b))
               = Some (slice xs (nat a) (nat a + nat b))
          \<and> (int (length xs) \<le> a \<longrightarrow>
               Iterable_toArray (Iterable_take (Iterable_skip s (Some a)) (Some b)) = Some [])
          \<and> Iterable_toArray (Iterable_skip s (Some 0)) = Some xs
          \<and> Iterable_toArray (Iterable_take s (Some 0)) = Some []"
    using assms
    by (intro exI[of _ "elements s"])
       (auto simp: Iterable_toArray_sem Iterable_take_def Iterable_skip_def slice_def new_ArrayList_empty)
next
  assume f: "fresh libraryLeaf libraryView it"
  note C = libraryLeaf_contract
  note ops = fresh_operators[OF C]
  have c: "current libraryView it = None" and ok: "leaves_ok libraryView it"
    using fresh_props[OF f] by simp_all
  have fs: "fresh libraryLeaf libraryView (SkipIterator it (Some k) 0)" for k
    by (rule ops(4)[OF f])
  have ft: "fresh libraryLeaf libraryView (TakeIterator i (Some k) 0)"
    if "fresh libraryLeaf libraryView i" for i k
    by (rule ops(6)[OF that])
  have ta: "map_option fst (Iterator_toArray libraryLeaf i) = Some (upcoming libraryView i)"
    if "fresh libraryLeaf libraryView i" for i
    using Iterator_toArray_view[OF C, of i] fresh_props[OF that] by (simp add: currentList_def)
  show "\<exists>ys view none.
              map_option fst (Iterator_toArray libraryLeaf it) = Some ys
            \<and> Iterator_take libraryLeaf (Iterator_skip it (Some a)) (Some b) = Some view
            \<and> map_option fst (Iterator_toArray libraryLeaf view) = Some (slice ys (nat a) (nat a + nat b))
            \<and> map_option fst (Iterator_toArray libraryLeaf (Iterator_skip it (Some 0))) = Some ys
            \<and> Iterator_take libraryLeaf it (Some 0) = Some none
            \<and> map_option fst (Iterator_toArray libraryLeaf none) = Some []"
  proof (rule exI[of _ "upcoming libraryView it"],
      rule exI[of _ "TakeIterator (SkipIterator it (Some a) 0) (Some b) 0"],
      rule exI[of _ "TakeIterator it (Some 0) 0"], intro conjI)
    show "map_option fst (Iterator_toArray libraryLeaf it) = Some (upcoming libraryView it)"
      by (rule ta[OF f])
    show "Iterator_take libraryLeaf (Iterator_skip it (Some a)) (Some b)
        = Some (TakeIterator (SkipIterator it (Some a) 0) (Some b) 0)"
      by (simp add: ops(3)[OF f] ops(5)[OF fs])
    show "map_option fst (Iterator_toArray libraryLeaf (TakeIterator (SkipIterator it (Some a) 0) (Some b) 0))
        = Some (slice (upcoming libraryView it) (nat a) (nat a + nat b))"
      using assms by (simp add: ta[OF ft[OF fs]] slice_def pendingSkips_def)
    show "map_option fst (Iterator_toArray libraryLeaf (Iterator_skip it (Some 0))) = Some (upcoming libraryView it)"
      by (simp add: ops(3)[OF f] ta[OF fs] pendingSkips_def)
    show "Iterator_take libraryLeaf it (Some 0) = Some (TakeIterator it (Some 0) 0)"
      by (rule ops(5)[OF f])
    show "map_option fst (Iterator_toArray libraryLeaf (TakeIterator it (Some 0) 0)) = Some []"
      by (simp add: ta[OF ft[OF f]])
  qed
qed

theorem skip_take_is_slice_witness:
  "Iterable_toArray (Iterable_take (Iterable_skip
       (ArrayListIterable (new_ArrayList (Some [Some (10::int), Some 20, Some 30, Some 40]))) (Some 1)) (Some 2))
     = Some [Some 20, Some 30]
   \<and> map_option fst (Iterator_toArray libraryLeaf (TakeIterator (SkipIterator
        (Leaf (OfArrayList (ArrayList_iterate (new_ArrayList (Some [Some (10::int), Some 20, Some 30, Some 40])))))
        (Some 1) 0) (Some 2) 0))
     = Some [Some 20, Some 30]"
proof -
  let ?al = "new_ArrayList (Some [Some (10::int), Some 20, Some 30, Some 40])"
  have xs: "Iterable_toArray (ArrayListIterable ?al) = Some [Some 10, Some 20, Some 30, Some 40]"
    by code_simp
  have ys: "map_option fst (Iterator_toArray libraryLeaf (Leaf (OfArrayList (ArrayList_iterate ?al))))
      = Some [Some 10, Some 20, Some 30, Some 40]"
    by code_simp
  have v: "Iterator_take libraryLeaf (Iterator_skip (Leaf (OfArrayList (ArrayList_iterate ?al))) (Some 1)) (Some 2)
      = Some (TakeIterator (SkipIterator (Leaf (OfArrayList (ArrayList_iterate ?al))) (Some 1) 0) (Some 2) 0)"
    by (simp add: fresh_operators(3)[OF libraryLeaf_contract fresh_forward]
        fresh_operators(5)[OF libraryLeaf_contract fresh_operators(4)[OF libraryLeaf_contract fresh_forward]])
  from skip_take_is_slice[of 1 2 "ArrayListIterable ?al" "Leaf (OfArrayList (ArrayList_iterate ?al))"]
  show ?thesis
    using fresh_forward[of ?al] by (auto simp: xs ys v slice_def)
qed


text \<open>
  C5.  For an Iterable built by the library and a positive count, \<open>getCount()\<close>
  of the \<open>skip\<close> view is \<open>max(0, count - a)\<close> and of the \<open>take\<close> view
  \<open>min(a, count)\<close>, and each is the number of values that iterating the view
  produces.
\<close>

theorem skip_take_getCount:
  assumes "constructed s" and "0 < a"
  shows "\<exists>n. Iterable_getCount s = Some n
     \<and> Iterable_getCount (Iterable_skip s (Some a)) = Some (max 0 (n - a))
     \<and> Iterable_getCount (Iterable_take s (Some a)) = Some (min a n)
     \<and> map_option (\<lambda>xs. int (length xs)) (Iterable_toArray (Iterable_skip s (Some a))) = Some (max 0 (n - a))
     \<and> map_option (\<lambda>xs. int (length xs)) (Iterable_toArray (Iterable_take s (Some a))) = Some (min a n)"
proof -
  have cs: "constructed (Iterable_skip s (Some a))" and ct: "constructed (Iterable_take s (Some a))"
    using constructed_operators[OF assms(1)] by simp_all
  show ?thesis
    using assms(2)
    by (intro exI[of _ "int (length (elements s))"])
       (auto simp: Iterable_getCount_sem[OF assms(1)] Iterable_getCount_sem[OF cs]
          Iterable_getCount_sem[OF ct] Iterable_toArray_sem Iterable_skip_def Iterable_take_def)
qed

theorem skip_take_getCount_witness:
  "Iterable_getCount (Iterable_skip (WhereIterable (StringIterable (Some ''a-b-c'')) (\<lambda>c. c \<noteq> Some CHR ''-'')) (Some 2)) = Some 1
   \<and> Iterable_getCount (Iterable_take (WhereIterable (StringIterable (Some ''a-b-c'')) (\<lambda>c. c \<noteq> Some CHR ''-'')) (Some 2)) = Some 2
   \<and> map_option (\<lambda>xs. int (length xs))
        (Iterable_toArray (Iterable_skip (WhereIterable (StringIterable (Some ''a-b-c'')) (\<lambda>c. c \<noteq> Some CHR ''-'')) (Some 2))) = Some 1
   \<and> map_option (\<lambda>xs. int (length xs))
        (Iterable_toArray (Iterable_take (WhereIterable (StringIterable (Some ''a-b-c'')) (\<lambda>c. c \<noteq> Some CHR ''-'')) (Some 2))) = Some 2"
proof -
  let ?s = "WhereIterable (StringIterable (Some ''a-b-c'')) (\<lambda>c. c \<noteq> Some CHR ''-'')"
  have n: "Iterable_getCount ?s = Some 3" by code_simp
  from skip_take_getCount[of ?s 2] show ?thesis by (auto simp: n simp del: Iterable_getCount.simps)
qed


section \<open>Degenerate arguments\<close>

text \<open>
  C3.  The operators answer an absent or degenerate argument without raising,
  on every Iterable and on every iterator of the library in any state:
  \<open>where\<close> without a condition and \<open>skip\<close> without a positive count give the
  sequence itself (on an iterator, a decorator with the same values), \<open>take\<close>
  without a positive count gives a sequence whose first \<open>next()\<close> is false, and
  \<open>map\<close> without a function gives one that is empty whatever is called, so
  that \<open>map(undefined).toArray()\<close> is empty.
\<close>

theorem operators_total_on_degenerate_arguments:
  "(\<exists>xs. Iterable_toArray s = Some xs)
   \<and> Iterable_where s None = s
   \<and> Iterable_skip s None = s
   \<and> (n \<le> 0 \<longrightarrow> Iterable_skip s (Some n) = s)
   \<and> Iterable_toArray (Iterable_take s None) = Some []
   \<and> (n \<le> 0 \<longrightarrow> Iterable_toArray (Iterable_take s (Some n)) = Some [])
   \<and> Iterable_toArray (Iterable_map s None) = Some []
   \<and> (leaves_ok libraryView it \<longrightarrow>
        (\<exists>xs. map_option fst (Iterator_toArray libraryLeaf it) = Some xs
           \<and> map_option (\<lambda>w. map_option fst (Iterator_toArray libraryLeaf w))
                (Iterator_where libraryLeaf it None) = Some (Some xs)
           \<and> map_option fst (Iterator_toArray libraryLeaf (Iterator_skip it None)) = Some xs
           \<and> (n \<le> 0 \<longrightarrow>
                map_option fst (Iterator_toArray libraryLeaf (Iterator_skip it (Some n))) = Some xs))
      \<and> (\<exists>t. Iterator_take libraryLeaf it None = Some t
           \<and> map_option fst (Iterator_toArray libraryLeaf t) = Some []
           \<and> map_option fst (Iterator_nexts libraryLeaf (Suc k) t) = Some (replicate (Suc k) False))
      \<and> (n \<le> 0 \<longrightarrow>
           (\<exists>t. Iterator_take libraryLeaf it (Some n) = Some t
             \<and> map_option fst (Iterator_toArray libraryLeaf t) = Some []
             \<and> map_option fst (Iterator_nexts libraryLeaf (Suc k) t) = Some (replicate (Suc k) False)))
      \<and> map_option fst (Iterator_toArray libraryLeaf (Iterator_map libraryLeaf it None)) = Some []
      \<and> map_option fst (Iterator_hasCurrent libraryLeaf (Iterator_map libraryLeaf it None)) = Some False
      \<and> map_option fst (Iterator_nexts libraryLeaf (Suc k) (Iterator_map libraryLeaf it None))
           = Some (replicate (Suc k) False))"
proof -
  note C = libraryLeaf_contract
  have iterables: "(\<exists>xs. Iterable_toArray s = Some xs)
   \<and> Iterable_where s None = s
   \<and> Iterable_skip s None = s
   \<and> (n \<le> 0 \<longrightarrow> Iterable_skip s (Some n) = s)
   \<and> Iterable_toArray (Iterable_take s None) = Some []
   \<and> (n \<le> 0 \<longrightarrow> Iterable_toArray (Iterable_take s (Some n)) = Some [])
   \<and> Iterable_toArray (Iterable_map s None) = Some []"
    by (simp add: Iterable_toArray_sem Iterable_where_def Iterable_skip_def Iterable_take_def
        Iterable_map_def new_ArrayList_empty)
  have iterators: "(\<exists>xs. map_option fst (Iterator_toArray libraryLeaf it) = Some xs
           \<and> map_option (\<lambda>w. map_option fst (Iterator_toArray libraryLeaf w))
                (Iterator_where libraryLeaf it None) = Some (Some xs)
           \<and> map_option fst (Iterator_toArray libraryLeaf (Iterator_skip it None)) = Some xs
           \<and> (n \<le> 0 \<longrightarrow>
                map_option fst (Iterator_toArray libraryLeaf (Iterator_skip it (Some n))) = Some xs))
      \<and> (\<exists>t. Iterator_take libraryLeaf it None = Some t
           \<and> map_option fst (Iterator_toArray libraryLeaf t) = Some []
           \<and> map_option fst (Iterator_nexts libraryLeaf (Suc k) t) = Some (replicate (Suc k) False))
      \<and> (n \<le> 0 \<longrightarrow>
           (\<exists>t. Iterator_take libraryLeaf it (Some n) = Some t
             \<and> map_option fst (Iterator_toArray libraryLeaf t) = Some []
             \<and> map_option fst (Iterator_nexts libraryLeaf (Suc k) t) = Some (replicate (Suc k) False)))
      \<and> map_option fst (Iterator_toArray libraryLeaf (Iterator_map libraryLeaf it None)) = Some []
      \<and> map_option fst (Iterator_hasCurrent libraryLeaf (Iterator_map libraryLeaf it None)) = Some False
      \<and> map_option fst (Iterator_nexts libraryLeaf (Suc k) (Iterator_map libraryLeaf it None))
           = Some (replicate (Suc k) False)"
    if ok: "leaves_ok libraryView it"
  proof (intro conjI impI)
    let ?xs = "currentList (current libraryView it) @ upcoming libraryView it"
    have skip_same: "map_option fst (Iterator_toArray libraryLeaf (SkipIterator it j 0)) = Some ?xs"
      if "pendingSkips j 0 = 0" for j
    proof -
      have "leaves_ok libraryView (SkipIterator it j 0)" using ok by simp
      from Iterator_toArray_view[OF C this] show ?thesis
        using that by (simp add: headOption_def split: option.splits)
    qed
    show "\<exists>xs. map_option fst (Iterator_toArray libraryLeaf it) = Some xs
           \<and> map_option (\<lambda>w. map_option fst (Iterator_toArray libraryLeaf w))
                (Iterator_where libraryLeaf it None) = Some (Some xs)
           \<and> map_option fst (Iterator_toArray libraryLeaf (Iterator_skip it None)) = Some xs
           \<and> (n \<le> 0 \<longrightarrow>
                map_option fst (Iterator_toArray libraryLeaf (Iterator_skip it (Some n))) = Some xs)"
    proof (intro exI[of _ ?xs] conjI impI)
      show "map_option fst (Iterator_toArray libraryLeaf it) = Some ?xs"
        by (rule Iterator_toArray_view[OF C ok])
      have "leaves_ok libraryView (WhereIterator it None)" using ok by simp
      from Iterator_toArray_view[OF C this]
      show "map_option (\<lambda>w. map_option fst (Iterator_toArray libraryLeaf w))
                (Iterator_where libraryLeaf it None) = Some (Some ?xs)"
        by (simp add: Iterator_where_def new_WhereIterator_def)
      show "map_option fst (Iterator_toArray libraryLeaf (Iterator_skip it None)) = Some ?xs"
        by (simp add: Iterator_skip_def new_SkipIterator_def skip_same pendingSkips_def)
      show "map_option fst (Iterator_toArray libraryLeaf (Iterator_skip it (Some n))) = Some ?xs" if "n \<le> 0"
        using that by (simp add: Iterator_skip_def new_SkipIterator_def skip_same pendingSkips_def)
    qed
    show "\<exists>t. Iterator_take libraryLeaf it None = Some t
           \<and> map_option fst (Iterator_toArray libraryLeaf t) = Some []
           \<and> map_option fst (Iterator_nexts libraryLeaf (Suc k) t) = Some (replicate (Suc k) False)"
      by (rule degenerate_take_empty[OF C ok]) simp
    show "\<exists>t. Iterator_take libraryLeaf it (Some n) = Some t
             \<and> map_option fst (Iterator_toArray libraryLeaf t) = Some []
             \<and> map_option fst (Iterator_nexts libraryLeaf (Suc k) t) = Some (replicate (Suc k) False)"
      if "n \<le> 0"
      using that by (intro degenerate_take_empty[OF C ok]) simp
    let ?m = "MapIterator it None (Iterator_hasStarted libraryLeaf it)"
    have okm: "leaves_ok libraryView ?m" using ok by simp
    have m: "Iterator_map libraryLeaf it None = ?m"
      by (simp add: Iterator_map_def new_MapIterator_def)
    show "map_option fst (Iterator_toArray libraryLeaf (Iterator_map libraryLeaf it None)) = Some []"
      unfolding m using Iterator_toArray_view[OF C okm] by (simp add: currentList_def)
    show "map_option fst (Iterator_hasCurrent libraryLeaf (Iterator_map libraryLeaf it None)) = Some False"
      unfolding m by (simp add: Iterator_hasCurrent_def call_Map MapIterator_methods_def)
    show "map_option fst (Iterator_nexts libraryLeaf (Suc k) (Iterator_map libraryLeaf it None))
           = Some (replicate (Suc k) False)"
      unfolding m by (rule nexts_empty[OF C okm]) simp
  qed
  show ?thesis using iterables iterators by blast
qed

theorem operators_total_on_degenerate_arguments_witness:
  "Iterable_toArray (Iterable_take (ArrayListIterable (new_ArrayList (Some [Some (1::int), Some 2]))) (Some (- 1))) = Some []
   \<and> Iterable_skip (ArrayListIterable (new_ArrayList (Some [Some (1::int), Some 2]))) (Some (- 1))
       = ArrayListIterable (new_ArrayList (Some [Some (1::int), Some 2]))
   \<and> map_option fst (Iterator_toArray libraryLeaf
        (Iterator_map libraryLeaf (Leaf (OfArrayList (ArrayList_iterate (new_ArrayList (Some [Some (1::int), Some 2]))))) None))
       = Some []
   \<and> map_option fst (Iterator_toArray libraryLeaf
        (Iterator_skip (Leaf (OfArrayList (ArrayList_iterate (new_ArrayList (Some [Some (1::int), Some 2]))))) (Some (- 1))))
       = Some [Some 1, Some 2]"
proof -
  let ?al = "new_ArrayList (Some [Some (1::int), Some 2])"
  have ok: "leaves_ok libraryView (Leaf (OfArrayList (ArrayList_iterate ?al)))"
    using fresh_props[OF fresh_forward[of ?al]] by simp
  have xs: "map_option fst (Iterator_toArray libraryLeaf (Leaf (OfArrayList (ArrayList_iterate ?al))))
      = Some [Some 1, Some 2]"
    by code_simp
  from operators_total_on_degenerate_arguments[of "ArrayListIterable ?al" "- 1"
      "Leaf (OfArrayList (ArrayList_iterate ?al))" 0]
  show ?thesis using ok by (auto simp: xs)
qed


section \<open>Indexing a skip view\<close>

text \<open>
  C6.  \<open>get\<close> of a \<open>skip\<close> view adds the skipped count to the index and asks
  the inner Iterable, without looking at the sign of the index: on a view that
  skips \<open>toSkip\<close> values of an ArrayList, a negative index not below
  \<open>- toSkip\<close> returns one of the skipped elements of the list instead of
  \<open>undefined\<close>.
\<close>

theorem SkipIterable_get_negative_index:
  assumes "0 < toSkip" and "- toSkip \<le> i" and "i < 0" and "i + toSkip < int (al_count al)"
  shows "Iterable_get (Iterable_skip (ArrayListIterable al) (Some toSkip)) (Some i)
       = Some (ArrayList_get al (Some (i + toSkip)))
     \<and> ArrayList_get al (Some (i + toSkip)) = ArrayList_elements al ! nat (i + toSkip)"
  using assms
  by (simp add: Iterable_skip_def ArrayList_get_def ArrayList_elements_nth)

theorem SkipIterable_get_negative_index_witness:
  "Iterable_get (Iterable_skip (ArrayListIterable (new_ArrayList (Some [Some (10::int), Some 20, Some 30]))) (Some 1))
      (Some (- 1)) = Some (Some 10)"
proof -
  let ?al = "new_ArrayList (Some [Some (10::int), Some 20, Some 30])"
  have c: "al_count ?al = 3" by code_simp
  have g: "ArrayList_get ?al (Some 0) = Some 10" by code_simp
  from SkipIterable_get_negative_index[of 1 "- 1" ?al] show ?thesis
    by (simp add: c g)
qed


section \<open>Adding a key again\<close>





end
